theory Spec2Isabelle
  imports Main "HOL-Library.Multiset"
begin

section \<open>Data model\<close>

text \<open>
  The documents handled by \<^verbatim>\<open>c4tool.js\<close> and \<^verbatim>\<open>ordering.js\<close> are the values that
  \<^verbatim>\<open>yaml.load\<close> returns: null, booleans, numbers, strings, arrays and plain objects.
  An object is kept as the list of its own properties in enumeration order (the keys of a
  JavaScript object are pairwise distinct; a lookup takes the first entry of a key).
  Numbers are the integers; fractions, dates and the other values a YAML tag can build are
  not represented. A string is the list of the bytes of its UTF-8 encoding. A document is a
  tree: an anchor shared by two places of a YAML text is not represented.
\<close>

datatype json =
    JNull
  | JBool bool
  | JNum int
  | JStr string
  | JArr "json list"
  | JObj "(string \<times> json) list"

text \<open>
  What a call can end with instead of a value: the two exceptions the code can raise on
  these documents (\<^verbatim>\<open>TypeError\<close> from a property read on null or a call of a missing
  method, the assertion of \<^verbatim>\<open>jp.query\<close>), and \<open>OutsideModel\<close> for an input whose JavaScript
  behaviour this development does not describe (property reads that reach a built-in
  prototype, numbers beyond the exact integers, the loose equality of a number with a
  literal that is not the decimal print of an integer, a name whose text does not stand
  for itself between the quotes of a path expression). Nothing is claimed about such an
  input.
\<close>

datatype error = TypeError | AssertionError | OutsideModel

definition bind :: "error + 'a \<Rightarrow> ('a \<Rightarrow> error + 'b) \<Rightarrow> error + 'b" where
  "bind m f = (case m of Inl e \<Rightarrow> Inl e | Inr x \<Rightarrow> f x)"

fun map_result :: "('a \<Rightarrow> error + 'b) \<Rightarrow> 'a list \<Rightarrow> error + 'b list" where
  "map_result f [] = Inr []"
| "map_result f (x # xs) =
     bind (f x) (\<lambda>y. bind (map_result f xs) (\<lambda>ys. Inr (y # ys)))"

lemma bind_cong [fundef_cong]:
  "m = m' \<Longrightarrow> (\<And>x. m' = Inr x \<Longrightarrow> f x = g x) \<Longrightarrow> bind m f = bind m' g"
  by (cases m') (simp_all add: bind_def)

lemma map_result_cong [fundef_cong]:
  "xs = ys \<Longrightarrow> (\<And>x. x \<in> set ys \<Longrightarrow> f x = g x) \<Longrightarrow> map_result f xs = map_result g ys"
  by (induction ys arbitrary: xs) (auto intro: bind_cong)

section \<open>Strings\<close>

text \<open>\<^verbatim>\<open>String.prototype.indexOf\<close>: the position of the first occurrence, if there is one.\<close>

fun indexOf :: "string \<Rightarrow> string \<Rightarrow> nat option" where
  "indexOf [] pat = (if pat = [] then Some 0 else None)"
| "indexOf (c # cs) pat =
     (if take (length pat) (c # cs) = pat then Some 0
      else map_option Suc (indexOf cs pat))"

text \<open>
  \<^verbatim>\<open>String.prototype.replace\<close> with a string pattern: the first occurrence only. (The
  replacement texts of this program contain no \<^verbatim>\<open>$\<close>.)
\<close>

definition replace :: "string \<Rightarrow> string \<Rightarrow> string \<Rightarrow> string" where
  "replace s pat rep =
     (case indexOf s pat of
        None \<Rightarrow> s
      | Some i \<Rightarrow> take i s @ rep @ drop (i + length pat) s)"

fun join_with :: "string \<Rightarrow> string list \<Rightarrow> string" where
  "join_with sep [] = []"
| "join_with sep [s] = s"
| "join_with sep (s # t # ss) = s @ sep @ join_with sep (t # ss)"

section \<open>Marker Normalizer: \<^verbatim>\<open>prepareYaml\<close>\<close>

text \<open>
  \<^verbatim>\<open>
  const prepareYaml = (yamlString) => {
      const sepLoc = yamlString.indexOf('---');
      return sepLoc >= 0 ? yamlString.substring(sepLoc) : `---\n${yamlString}`;
  }
  \<close>
\<close>

definition prepareYaml :: "string \<Rightarrow> string" where
  "prepareYaml yamlString =
     (case indexOf yamlString ''---'' of
        Some sepLoc \<Rightarrow> drop sepLoc yamlString
      | None \<Rightarrow> ''---'' @ [CHR 0x0A] @ yamlString)"

section \<open>Empty-Value Pruner: \<^verbatim>\<open>removeEmptyElements\<close>\<close>

text \<open>
  \<^verbatim>\<open>
  const removeEmptyElements = (obj) => {
      var isArray = obj instanceof Array;
      for (var k in obj) {
        if (obj[k] === null || obj[k] === '') isArray ? obj.splice(k, 1) : delete obj[k];
        else if (typeof obj[k] == "object") removeEmptyElements(obj[k]);
        if (isArray && obj.length == k) removeEmptyElements(obj);
      }
      return obj;
  };
  \<close>
  A \<^verbatim>\<open>for\<close>-\<^verbatim>\<open>in\<close> loop takes the keys the object has when the loop starts and visits each
  that is still a property when its turn comes (ECMAScript, EnumerateObjectProperties: a
  property deleted before it is visited is not visited).

  For an array the keys are the indices \<open>0\<close>, \<open>1\<close>, \<dots> in order. \<open>array_loop done rest\<close> is
  the loop at index \<open>k = length done\<close>: \<open>done\<close> holds the items now at the indices below
  \<open>k\<close>, \<open>rest\<close> those from \<open>k\<close> on. When the item at \<open>k\<close> is removed by \<^verbatim>\<open>splice\<close>, the items
  behind it move down by one: its successor is now at \<open>k\<close> and the loop goes on at
  \<open>k + 1\<close>. After the removal \<^verbatim>\<open>obj.length == k\<close> holds exactly when nothing was behind the
  removed item; then the whole array is pruned again, and when that call returns no index
  above \<open>k\<close> is left to visit. An array never grows, so every index that is still present
  is one of the keys taken at the start.

  For a plain object \<^verbatim>\<open>delete\<close> removes the visited property only, and the other keys are
  visited in order.
\<close>

definition is_empty_value :: "json \<Rightarrow> bool" where
  "is_empty_value v = (v = JNull \<or> v = JStr [])"

text \<open>\<^verbatim>\<open>typeof v == "object"\<close> for a value that is not null.\<close>

fun typeof_object :: "json \<Rightarrow> bool" where
  "typeof_object (JArr _) = True"
| "typeof_object (JObj _) = True"
| "typeof_object _ = False"

fun items_of :: "json \<Rightarrow> json list" where
  "items_of (JArr xs) = xs"
| "items_of _ = []"

fun nodes :: "json \<Rightarrow> nat" where
  "nodes (JArr xs) = Suc (sum_list (map nodes xs))"
| "nodes (JObj kvs) = Suc (sum_list (map (\<lambda>kv. nodes (snd kv)) kvs))"
| "nodes _ = 1"

function (sequential) removeEmptyElements :: "json \<Rightarrow> json"
  and array_loop :: "json list \<Rightarrow> json list \<Rightarrow> json list"
  and object_loop :: "(string \<times> json) list \<Rightarrow> (string \<times> json) list"
where
  "removeEmptyElements (JArr xs) = JArr (array_loop [] xs)"
| "removeEmptyElements (JObj kvs) = JObj (object_loop kvs)"
| "removeEmptyElements v = v"
| "array_loop done [] = done"
| "array_loop done (x # rest) =
     (if is_empty_value x then
        (case rest of
           [] \<Rightarrow> items_of (removeEmptyElements (JArr done))
         | y # rest' \<Rightarrow> array_loop (done @ [y]) rest')
      else if typeof_object x then array_loop (done @ [removeEmptyElements x]) rest
      else array_loop (done @ [x]) rest)"
| "object_loop [] = []"
| "object_loop ((k, v) # kvs) =
     (if is_empty_value v then object_loop kvs
      else if typeof_object v then (k, removeEmptyElements v) # object_loop kvs
      else (k, v) # object_loop kvs)"
  by pat_completeness auto

text \<open>
  The pruner calls itself on an array it has already pruned in part, so its termination
  rests on a fact about its own result: pruning never adds a node.
\<close>

lemma nodes_pos: "0 < nodes v"
  by (cases v) auto

lemma nodes_twice: "Suc 0 < 2 * nodes v"
  using nodes_pos [of v] by linarith

lemma items_of_nodes: "Suc (sum_list (map nodes (items_of w))) \<le> nodes w"
  by (cases w) auto

lemma removeEmptyElements_nodes_dom:
  "removeEmptyElements_array_loop_object_loop_dom (Inl v) \<Longrightarrow>
     nodes (removeEmptyElements v) \<le> nodes v"
  "removeEmptyElements_array_loop_object_loop_dom (Inr (Inl (d, r))) \<Longrightarrow>
     sum_list (map nodes (array_loop d r)) \<le> sum_list (map nodes d) + sum_list (map nodes r)"
  "removeEmptyElements_array_loop_object_loop_dom (Inr (Inr kvs)) \<Longrightarrow>
     sum_list (map (\<lambda>kv. nodes (snd kv)) (object_loop kvs))
       \<le> sum_list (map (\<lambda>kv. nodes (snd kv)) kvs)"
proof (induction v and d r and kvs rule: removeEmptyElements_array_loop_object_loop.pinduct)
  case (5 d x rest)
  show ?case
  proof (cases "is_empty_value x")
    case True
    show ?thesis
    proof (cases rest)
      case Nil
      from 5(2) [OF True Nil]
      have "nodes (removeEmptyElements (JArr d)) \<le> Suc (sum_list (map nodes d))"
        by simp
      with items_of_nodes [of "removeEmptyElements (JArr d)"]
      have "sum_list (map nodes (items_of (removeEmptyElements (JArr d))))
              \<le> sum_list (map nodes d)"
        by linarith
      then show ?thesis
        using True Nil 5(1) by (simp add: array_loop.psimps)
    next
      case (Cons y rest')
      from 5(3) [OF True Cons] show ?thesis
        using True Cons 5(1) by (simp add: array_loop.psimps)
    qed
  next
    case False
    show ?thesis
    proof (cases "typeof_object x")
      case True
      from 5(4) [OF False True] 5(5) [OF False True] show ?thesis
        using False True 5(1) by (simp add: array_loop.psimps)
    next
      case no_object: False
      from 5(6) [OF False no_object] show ?thesis
        using False no_object 5(1) by (simp add: array_loop.psimps)
    qed
  qed
qed (auto simp: removeEmptyElements.psimps array_loop.psimps object_loop.psimps)

termination removeEmptyElements
proof (relation "measures
    [\<lambda>a. case a of
        Inl v \<Rightarrow> 2 * nodes v
      | Inr (Inl (d, r)) \<Rightarrow> 2 * (sum_list (map nodes d) + sum_list (map nodes r)) + 1
      | Inr (Inr kvs) \<Rightarrow> 2 * sum_list (map (\<lambda>kv. nodes (snd kv)) kvs) + 1,
     \<lambda>a. case a of
        Inl v \<Rightarrow> 0
      | Inr (Inl (d, r)) \<Rightarrow> length r
      | Inr (Inr kvs) \<Rightarrow> length kvs]", goal_cases)
  case (7 d x rest)
  then show ?case
    using removeEmptyElements_nodes_dom(1) [of x] by auto
qed (auto simp: nodes_twice)

section \<open>Key Extractor: \<^verbatim>\<open>sortKey\<close>\<close>

text \<open>
  The own property names of \<^verbatim>\<open>Object.prototype\<close>: every plain object inherits them, so
  \<^verbatim>\<open>key in obj\<close> holds and \<^verbatim>\<open>obj[key]\<close> is a built-in function (for \<^verbatim>\<open>__proto__\<close>, the
  prototype object) when \<open>key\<close> is one of them and \<open>obj\<close> has no own property \<open>key\<close>.
\<close>

definition object_prototype_names :: "string list" where
  "object_prototype_names =
     [''constructor'', ''__defineGetter__'', ''__defineSetter__'', ''hasOwnProperty'',
      ''__lookupGetter__'', ''__lookupSetter__'', ''isPrototypeOf'',
      ''propertyIsEnumerable'', ''toString'', ''valueOf'', ''__proto__'',
      ''toLocaleString'']"

text \<open>
  The property read \<^verbatim>\<open>item[prop]\<close>; \<open>None\<close> is \<^verbatim>\<open>undefined\<close>. A read on null raises. A
  read that would reach a built-in prototype (an inherited member of a plain object, any
  property of a string, number, boolean or array) is outside the model.
\<close>

fun get_property :: "json \<Rightarrow> string \<Rightarrow> error + json option" where
  "get_property JNull prop = Inl TypeError"
| "get_property (JObj kvs) prop =
     (case map_of kvs prop of
        Some v \<Rightarrow> Inr (Some v)
      | None \<Rightarrow> if prop \<in> set object_prototype_names then Inl OutsideModel else Inr None)"
| "get_property _ prop = Inl OutsideModel"

text \<open>The decimal digits of a natural number.\<close>

fun digits :: "nat \<Rightarrow> string" where
  "digits n =
     (if n < 10 then [char_of (48 + n)]
      else digits (n div 10) @ [char_of (48 + n mod 10)])"

declare digits.simps [simp del]

definition print_integer :: "int \<Rightarrow> string" where
  "print_integer n = (if n < 0 then ''-'' else []) @ digits (nat \<bar>n\<bar>)"

text \<open>
  \<^verbatim>\<open>ToString\<close>, as \<^verbatim>\<open>Array.prototype.join\<close> and a template literal apply it. An array is
  joined with commas, its null items giving empty texts; an integer is printed in decimal.
  A JavaScript number holds every integer up to \<open>2\<^sup>5\<^sup>3\<close> in absolute value exactly; a
  larger one is outside the model.

  For a plain object the conversion calls its \<^verbatim>\<open>toString\<close>, then its \<^verbatim>\<open>valueOf\<close>. Without
  an own property \<^verbatim>\<open>toString\<close> the inherited method answers \<^verbatim>\<open>[object Object]\<close>. An own
  property \<^verbatim>\<open>toString\<close> of a document is never a function: it is passed over,
  \<^verbatim>\<open>valueOf\<close> (inherited, returning the object itself, or own and no function either) gives
  no primitive value, and the conversion raises \<^verbatim>\<open>TypeError\<close>.
\<close>

fun to_string :: "json \<Rightarrow> error + string" where
  "to_string JNull = Inr ''null''"
| "to_string (JBool b) = Inr (if b then ''true'' else ''false'')"
| "to_string (JNum n) =
     (if \<bar>n\<bar> \<le> 2 ^ 53 then Inr (print_integer n) else Inl OutsideModel)"
| "to_string (JStr s) = Inr s"
| "to_string (JArr xs) =
     bind (map_result (\<lambda>x. if x = JNull then Inr [] else to_string x) xs)
       (\<lambda>segments. Inr (join_with '','' segments))"
| "to_string (JObj kvs) =
     (if map_of kvs ''toString'' = None then Inr ''[object Object]'' else Inl TypeError)"

text \<open>
  \<^verbatim>\<open>Array.prototype.join\<close> on the values read from a node: \<^verbatim>\<open>undefined\<close> and null give
  the empty text, every other value its \<^verbatim>\<open>ToString\<close>.
\<close>

definition join_segment :: "json option \<Rightarrow> error + string" where
  "join_segment v =
     (case v of
        None \<Rightarrow> Inr []
      | Some x \<Rightarrow> if x = JNull then Inr [] else to_string x)"

definition join :: "json option list \<Rightarrow> string \<Rightarrow> error + string" where
  "join vals sep = bind (map_result join_segment vals) (\<lambda>segments. Inr (join_with sep segments))"

text \<open>
  \<^verbatim>\<open>
  const sortKey = (item, props) => props.map((prop) => item[prop]).join('.').replace(' ', '_');
  \<close>
\<close>

definition sortKey :: "json \<Rightarrow> string list \<Rightarrow> error + string" where
  "sortKey item props =
     bind (map_result (get_property item) props)
       (\<lambda>vals. bind (join vals ''.'') (\<lambda>joined. Inr (replace joined '' '' ''_'')))"

section \<open>Order table\<close>

text \<open>
  The order table is the object that \<^verbatim>\<open>ordering\<close> builds from \<^verbatim>\<open>{}\<close>: the list of its own
  properties. \<^verbatim>\<open>acc[key] = index\<close> creates or overwrites an own property, except for the key
  \<^verbatim>\<open>__proto__\<close>: that assignment runs the setter of \<^verbatim>\<open>Object.prototype\<close>, which ignores a
  number and creates nothing.
\<close>

type_synonym order_table = "(string \<times> nat) list"

fun put :: "string \<Rightarrow> nat \<Rightarrow> order_table \<Rightarrow> order_table" where
  "put key index [] = [(key, index)]"
| "put key index ((k, i) # acc) =
     (if k = key then (key, index) # acc else (k, i) # put key index acc)"

definition assign :: "string \<Rightarrow> nat \<Rightarrow> order_table \<Rightarrow> order_table" where
  "assign key index acc = (if key = ''__proto__'' then acc else put key index acc)"

text \<open>\<^verbatim>\<open>key in order\<close>: an own property or an inherited one.\<close>

definition has_property :: "order_table \<Rightarrow> string \<Rightarrow> bool" where
  "has_property order key = (key \<in> set object_prototype_names \<or> map_of order key \<noteq> None)"

text \<open>
  What \<^verbatim>\<open>aPos\<close> and \<^verbatim>\<open>bPos\<close> can hold: a number, or the inherited member that
  \<^verbatim>\<open>order[key]\<close> returns for a key that is no own property (\<open>Inherited key\<close>).
\<close>

datatype position = Index nat | Inherited string

text \<open>
  The text that \<^verbatim>\<open><\<close> and \<^verbatim>\<open>>\<close> convert an inherited member to: for \<^verbatim>\<open>__proto__\<close>, the
  prototype object, \<^verbatim>\<open>[object Object]\<close>; for a built-in function its source text as the
  V8 engine of Node prints it (\<^verbatim>\<open>constructor\<close> is the function \<^verbatim>\<open>Object\<close>, every other
  member is a function of its own name).
\<close>

definition inherited_text :: "string \<Rightarrow> string" where
  "inherited_text key =
     (if key = ''__proto__'' then ''[object Object]''
      else ''function '' @ (if key = ''constructor'' then ''Object'' else key)
             @ ''() { [native code] }'')"

text \<open>The order of two strings under \<^verbatim>\<open><\<close>: lexicographic, unit by unit.\<close>

fun string_less :: "string \<Rightarrow> string \<Rightarrow> bool" where
  "string_less [] [] = False"
| "string_less [] (d # t) = True"
| "string_less (c # s) [] = False"
| "string_less (c # s) (d # t) =
     ((of_char c :: nat) < of_char d \<or> (c = d \<and> string_less s t))"

text \<open>
  \<^verbatim>\<open>aPos < bPos\<close>. Two numbers are compared as numbers. Two inherited members are both
  converted to texts, and the texts are compared. An inherited member against a number is
  converted to \<^verbatim>\<open>NaN\<close>, and the comparison is false.
\<close>

fun less_position :: "position \<Rightarrow> position \<Rightarrow> bool" where
  "less_position (Index m) (Index n) = (m < n)"
| "less_position (Inherited a) (Inherited b) = string_less (inherited_text a) (inherited_text b)"
| "less_position _ _ = False"

definition position_of :: "order_table \<Rightarrow> string \<Rightarrow> position" where
  "position_of order key =
     (if has_property order key
      then (case map_of order key of Some i \<Rightarrow> Index i | None \<Rightarrow> Inherited key)
      else Index (length order))"

text \<open>
  \<^verbatim>\<open>
  const orderApply = (a, b, order, props) => {
      const length = Object.keys(order).length;
      const aKey   = sortKey(a, props);
      const bKey   = sortKey(b, props);
      const aPos   = (aKey in order) ? order[aKey] : length;
      const bPos   = (bKey in order) ? order[bKey] : length;
      if (aPos < bPos) { return -1 };
      if (aPos > bPos) { return 1 };
      return 0;
  };
  \<close>
\<close>

definition orderApply :: "json \<Rightarrow> json \<Rightarrow> order_table \<Rightarrow> string list \<Rightarrow> error + int" where
  "orderApply a b order props =
     bind (sortKey a props) (\<lambda>aKey.
     bind (sortKey b props) (\<lambda>bKey.
       let aPos = position_of order aKey;
           bPos = position_of order bKey
       in if less_position aPos bPos then Inr (- 1)
          else if less_position bPos aPos then Inr 1
          else Inr 0))"

section \<open>\<^verbatim>\<open>Array.prototype.sort\<close>\<close>

text \<open>
  The sort of the language, with a comparison function that may raise. ECMAScript (since
  the 2019 edition) requires the sort to be stable, and fixes its result for a comparison
  function that is consistent: here, a stable insertion sort that puts \<open>x\<close> before \<open>y\<close>
  unless the comparison of \<open>x\<close> with \<open>y\<close> is positive. No comparison is made for an array of
  fewer than two items.

  For a comparison that is not consistent (\<open>orderApply\<close> is not when one key names an
  inherited member and ties with keys at two different positions) the language leaves the
  order of the result to the engine, and an engine need not return the list that
  \<open>array_sort\<close> returns; both are permutations of the input. Every statement below about
  the order of a result has hypotheses under which the comparison is consistent.
\<close>

fun insert_sorted :: "('a \<Rightarrow> 'a \<Rightarrow> error + int) \<Rightarrow> 'a \<Rightarrow> 'a list \<Rightarrow> error + 'a list" where
  "insert_sorted cmp x [] = Inr [x]"
| "insert_sorted cmp x (y # ys) =
     bind (cmp x y) (\<lambda>c.
       if c \<le> 0 then Inr (x # y # ys)
       else bind (insert_sorted cmp x ys) (\<lambda>zs. Inr (y # zs)))"

fun array_sort :: "('a \<Rightarrow> 'a \<Rightarrow> error + int) \<Rightarrow> 'a list \<Rightarrow> error + 'a list" where
  "array_sort cmp [] = Inr []"
| "array_sort cmp (x # xs) = bind (array_sort cmp xs) (insert_sorted cmp x)"

section \<open>Path Selector: the queries of \<^verbatim>\<open>jsonpath\<close>\<close>

text \<open>
  Modelled from the spec: the Path Selector is the library \<^verbatim>\<open>jsonpath\<close>, which is not
  among the source files. Its part used here is recursive descent to a named field,
  the array wildcard, the step to a named child and the filter on children; a query that
  matches nothing returns the empty sequence.
\<close>

text \<open>
  The filter expressions of this program, as \<^verbatim>\<open>static-eval\<close> evaluates them on a candidate
  node \<^verbatim>\<open>@\<close>: \<^verbatim>\<open>@.prop\<close>, \<^verbatim>\<open>@.prop=="literal"\<close> and \<^verbatim>\<open>left && right\<close>.
\<close>

datatype script =
    Member string
  | MemberEquals string string
  | Conj script script

text \<open>
  The components of a parsed path after the root \<^verbatim>\<open>$\<close>: \<^verbatim>\<open>..key\<close>, \<^verbatim>\<open>.key\<close>, \<^verbatim>\<open>[*]\<close> and
  \<^verbatim>\<open>[?(script)]\<close>.
\<close>

datatype component =
    DescendantMember string
  | ChildMember string
  | ChildWildcard
  | ChildFilter script

type_synonym path = "component list"

text \<open>\<^verbatim>\<open>ToBoolean\<close>.\<close>

fun truthy :: "json \<Rightarrow> bool" where
  "truthy JNull = False"
| "truthy (JBool b) = b"
| "truthy (JNum n) = (n \<noteq> 0)"
| "truthy (JStr s) = (s \<noteq> [])"
| "truthy (JArr xs) = True"
| "truthy (JObj kvs) = True"

text \<open>
  The loose equality \<^verbatim>\<open>x == "lit"\<close> of a number with a string literal converts the literal
  to a number. The decimal print of an integer (up to \<open>2\<^sup>5\<^sup>3\<close> in absolute value) converts
  to that integer. A literal with an ASCII character that is neither white space nor one
  of the characters of a numeric literal (digits, signs, the point, the letters of an
  exponent, of \<^verbatim>\<open>0x\<close>, \<^verbatim>\<open>0o\<close>, \<^verbatim>\<open>0b\<close>, of the hexadecimal digits and of \<^verbatim>\<open>Infinity\<close>)
  converts to \<^verbatim>\<open>NaN\<close>, which equals no number. Every other literal is outside the model.
\<close>

definition read_integer :: "string \<Rightarrow> int" where
  "read_integer lit =
     (let value = foldl (\<lambda>acc c. 10 * acc + (int (of_char c) - 48)) 0
      in case lit of
           [] \<Rightarrow> 0
         | c # cs \<Rightarrow> if c = CHR ''-'' then - value cs else value (c # cs))"

definition printed_integer :: "string \<Rightarrow> int option" where
  "printed_integer lit =
     (let n = read_integer lit
      in if \<bar>n\<bar> \<le> 2 ^ 53 \<and> print_integer n = lit then Some n else None)"

definition never_numeric :: "string \<Rightarrow> bool" where
  "never_numeric lit =
     list_ex (\<lambda>c. (of_char c :: nat) < 128
                  \<and> c \<notin> set [CHR 0x09, CHR 0x0A, CHR 0x0B, CHR 0x0C, CHR 0x0D, CHR 0x20]
                  \<and> c \<notin> set ''0123456789+-.eExXoObBaAcCdDfFInity'') lit"

definition loose_equals_number :: "int \<Rightarrow> string \<Rightarrow> error + bool" where
  "loose_equals_number n lit =
     (if 2 ^ 53 < \<bar>n\<bar> then Inl OutsideModel
      else case printed_integer lit of
             Some m \<Rightarrow> Inr (n = m)
           | None \<Rightarrow> if never_numeric lit then Inr False else Inl OutsideModel)"

text \<open>
  \<^verbatim>\<open>x == "lit"\<close> for a document value: null is equal to no string; a string is compared as
  text; a number is compared with the number of the literal, a boolean as the number \<open>1\<close>
  or \<open>0\<close>; an array or a plain object is converted to its text, which is compared with
  the literal.
\<close>

fun loose_equals :: "json \<Rightarrow> string \<Rightarrow> error + bool" where
  "loose_equals JNull lit = Inr False"
| "loose_equals (JStr s) lit = Inr (s = lit)"
| "loose_equals (JNum n) lit = loose_equals_number n lit"
| "loose_equals (JBool b) lit = loose_equals_number (if b then 1 else 0) lit"
| "loose_equals x lit = bind (to_string x) (\<lambda>text. Inr (text = lit))"

text \<open>
  Whether a candidate passes a filter. The library evaluates the expression inside
  \<^verbatim>\<open>try\<close>/\<^verbatim>\<open>catch\<close>: an expression that raises (a read on null, the conversion of an
  object that has no text) gives \<^verbatim>\<open>undefined\<close>, and the candidate is left out.
\<close>

definition caught :: "error + bool \<Rightarrow> error + bool" where
  "caught r = (case r of Inl TypeError \<Rightarrow> Inr False | Inl e \<Rightarrow> Inl e | Inr b \<Rightarrow> Inr b)"

fun evaluate :: "script \<Rightarrow> json \<Rightarrow> error + bool" where
  "evaluate (Member prop) v =
     (case get_property v prop of
        Inl TypeError \<Rightarrow> Inr False
      | Inl e \<Rightarrow> Inl e
      | Inr None \<Rightarrow> Inr False
      | Inr (Some x) \<Rightarrow> Inr (truthy x))"
| "evaluate (MemberEquals prop lit) v =
     (case get_property v prop of
        Inl TypeError \<Rightarrow> Inr False
      | Inl e \<Rightarrow> Inl e
      | Inr None \<Rightarrow> Inr False
      | Inr (Some x) \<Rightarrow> caught (loose_equals x lit))"
| "evaluate (Conj l r) v =
     bind (evaluate l v) (\<lambda>lv. if lv then evaluate r v else Inr False)"

text \<open>The items of an array, the property values of a plain object (\<^verbatim>\<open>descend\<close>).\<close>

fun children :: "json \<Rightarrow> json list" where
  "children (JArr xs) = xs"
| "children (JObj kvs) = map snd kvs"
| "children _ = []"

text \<open>
  \<^verbatim>\<open>traverse\<close>: the values of the properties named \<open>key\<close> at any depth, those of a node
  before those found inside its children.
\<close>

fun traverse :: "string \<Rightarrow> json \<Rightarrow> json list" where
  "traverse key (JArr xs) = concat (map (traverse key) xs)"
| "traverse key (JObj kvs) =
     map snd (filter (\<lambda>kv. fst kv = key) kvs) @ concat (map (\<lambda>kv. traverse key (snd kv)) kvs)"
| "traverse key _ = []"

fun filter_result :: "('a \<Rightarrow> error + bool) \<Rightarrow> 'a list \<Rightarrow> error + 'a list" where
  "filter_result p [] = Inr []"
| "filter_result p (x # xs) =
     bind (p x) (\<lambda>b. bind (filter_result p xs) (\<lambda>ys. Inr (if b then x # ys else ys)))"

fun handler :: "component \<Rightarrow> json \<Rightarrow> error + json list" where
  "handler (DescendantMember key) v = Inr (traverse key v)"
| "handler (ChildMember key) (JObj kvs) =
     (case map_of kvs key of
        Some x \<Rightarrow> Inr [x]
      | None \<Rightarrow> if key \<in> set object_prototype_names then Inl OutsideModel else Inr [])"
| "handler (ChildMember key) (JArr xs) = Inl OutsideModel"
| "handler (ChildMember key) v = Inr []"
| "handler ChildWildcard v = Inr (children v)"
| "handler (ChildFilter s) v = filter_result (evaluate s) (children v)"

text \<open>
  \<^verbatim>\<open>jp.query\<close>: every component is applied to every partial result of the component before
  it; the results keep that order.
\<close>

fun select :: "path \<Rightarrow> json \<Rightarrow> error + json list" where
  "select [] v = Inr [v]"
| "select (c # cs) v =
     bind (handler c v) (\<lambda>partials.
     bind (map_result (select cs) partials) (\<lambda>results. Inr (concat results)))"

definition query :: "json \<Rightarrow> path \<Rightarrow> error + json list" where
  "query obj path = (if typeof_object obj then select path obj else Inl AssertionError)"

section \<open>\<^verbatim>\<open>ordering\<close> and \<^verbatim>\<open>sort\<close>\<close>

text \<open>
  \<^verbatim>\<open>
  const ordering = (item, path, props) => {
      return jp.query(item, path).reduce((acc, item, index) => {
          acc[sortKey(item, props)] = index;
          return acc;
      }, {});
  };
  \<close>
\<close>

fun reduce_order :: "string list \<Rightarrow> json list \<Rightarrow> nat \<Rightarrow> order_table \<Rightarrow> error + order_table" where
  "reduce_order props [] index acc = Inr acc"
| "reduce_order props (item # items) index acc =
     bind (sortKey item props) (\<lambda>key. reduce_order props items (Suc index) (assign key index acc))"

definition ordering :: "json \<Rightarrow> path \<Rightarrow> string list \<Rightarrow> error + order_table" where
  "ordering item path props = bind (query item path) (\<lambda>selected. reduce_order props selected 0 [])"

text \<open>
  \<^verbatim>\<open>sort\<close> changes the nodes that \<^verbatim>\<open>jp.query\<close> returns from the target in place. In a
  tree every selected node sits at one place, and \<open>update_at path f\<close> rebuilds the tree with
  \<open>f\<close> applied at each place the path selects, the places inside a node before the node
  itself.
\<close>

fun replace_own :: "string \<Rightarrow> json \<Rightarrow> (string \<times> json) list \<Rightarrow> (string \<times> json) list" where
  "replace_own key v [] = []"
| "replace_own key v ((k, x) # kvs) =
     (if k = key then (k, v) # kvs else (k, x) # replace_own key v kvs)"

lemma nodes_member: "x \<in> set xs \<Longrightarrow> nodes x < nodes (JArr xs)"
  by (induction xs) auto

lemma nodes_member_obj: "kv \<in> set kvs \<Longrightarrow> nodes (snd kv) < nodes (JObj kvs)"
  by (induction kvs) auto

function update_at :: "path \<Rightarrow> (json \<Rightarrow> error + json) \<Rightarrow> json \<Rightarrow> error + json" where
  "update_at [] f v = f v"
| "update_at (DescendantMember key # cs) f v =
     (case v of
        JArr xs \<Rightarrow>
          bind (map_result (update_at (DescendantMember key # cs) f) xs) (\<lambda>ys. Inr (JArr ys))
      | JObj kvs \<Rightarrow>
          bind (map_result (\<lambda>kv.
                  bind (update_at (DescendantMember key # cs) f (snd kv)) (\<lambda>x.
                    if fst kv = key then bind (update_at cs f x) (\<lambda>y. Inr (fst kv, y))
                    else Inr (fst kv, x))) kvs)
            (\<lambda>kvs'. Inr (JObj kvs'))
      | _ \<Rightarrow> Inr v)"
| "update_at (ChildMember key # cs) f v =
     (case v of
        JObj kvs \<Rightarrow>
          (case map_of kvs key of
             Some x \<Rightarrow> bind (update_at cs f x) (\<lambda>y. Inr (JObj (replace_own key y kvs)))
           | None \<Rightarrow> if key \<in> set object_prototype_names then Inl OutsideModel else Inr v)
      | JArr xs \<Rightarrow> Inl OutsideModel
      | _ \<Rightarrow> Inr v)"
| "update_at (ChildWildcard # cs) f v =
     (case v of
        JArr xs \<Rightarrow> bind (map_result (update_at cs f) xs) (\<lambda>ys. Inr (JArr ys))
      | JObj kvs \<Rightarrow>
          bind (map_result (\<lambda>kv. bind (update_at cs f (snd kv)) (\<lambda>y. Inr (fst kv, y))) kvs)
            (\<lambda>kvs'. Inr (JObj kvs'))
      | _ \<Rightarrow> Inr v)"
| "update_at (ChildFilter s # cs) f v =
     (case v of
        JArr xs \<Rightarrow>
          bind (map_result (\<lambda>x. bind (evaluate s x) (\<lambda>b. if b then update_at cs f x else Inr x)) xs)
            (\<lambda>ys. Inr (JArr ys))
      | JObj kvs \<Rightarrow>
          bind (map_result (\<lambda>kv.
                  bind (evaluate s (snd kv)) (\<lambda>b.
                    if b then bind (update_at cs f (snd kv)) (\<lambda>y. Inr (fst kv, y))
                    else Inr kv)) kvs)
            (\<lambda>kvs'. Inr (JObj kvs'))
      | _ \<Rightarrow> Inr v)"
  by pat_completeness auto
termination update_at
  by (relation "measures [\<lambda>(p, f, v). length p, \<lambda>(p, f, v). nodes v]")
     (auto simp: nodes_member nodes_member_obj simp del: nodes.simps)


text \<open>
  The body of the callback of \<^verbatim>\<open>forEach\<close> in \<^verbatim>\<open>sort\<close>, for one selected element:
  \<^verbatim>\<open>
  const order = ordering(initial, initialJsonPath(element), props);
  element[actualProperty].sort((a, b) => orderApply(a, b, order, props));
  \<close>
  Calling \<^verbatim>\<open>sort\<close> on anything but an array raises (no other document value has that
  method).
\<close>

definition sort_element ::
  "string \<Rightarrow> json \<Rightarrow> (json \<Rightarrow> error + path) \<Rightarrow> string list \<Rightarrow> json \<Rightarrow> error + json" where
  "sort_element actualProperty initial initialJsonPath props element =
     bind (initialJsonPath element) (\<lambda>path.
     bind (ordering initial path props) (\<lambda>order.
     bind (get_property element actualProperty) (\<lambda>collection.
       case (element, collection) of
         (JObj kvs, Some (JArr xs)) \<Rightarrow>
           bind (array_sort (\<lambda>a b. orderApply a b order props) xs) (\<lambda>ys.
             Inr (JObj (replace_own actualProperty (JArr ys) kvs)))
       | _ \<Rightarrow> Inl TypeError)))"

text \<open>
  The two documents of a reconciliation, the local variables \<^verbatim>\<open>initial\<close> (the reference)
  and \<^verbatim>\<open>actual\<close> (the target) of \<^verbatim>\<open>sortDiagram\<close>. They come from two calls of
  \<^verbatim>\<open>yaml.load\<close> and share no node.
\<close>

record documents =
  initial :: json
  actual :: json

text \<open>
  \<^verbatim>\<open>
  const sort = (actual, actualJsonPath, actualProperty, initial, initialJsonPath, props) => {
      jp.query(actual, actualJsonPath).forEach((element) => {
          const order = ordering(initial, initialJsonPath(element), props);
          element[actualProperty].sort((a, b) => orderApply(a, b, order, props));
      });
  };
  \<close>
\<close>

definition sort_js ::
  "documents \<Rightarrow> path \<Rightarrow> string \<Rightarrow> (json \<Rightarrow> error + path) \<Rightarrow> string list \<Rightarrow> error + documents" where
  "sort_js docs actualJsonPath actualProperty initialJsonPath props =
     (if typeof_object (actual docs) then
        bind (update_at actualJsonPath
                (sort_element actualProperty (initial docs) initialJsonPath props) (actual docs))
          (\<lambda>sorted. Inr (docs\<lparr>actual := sorted\<rparr>))
      else Inl AssertionError)"

section \<open>Document Normalizer: \<^verbatim>\<open>sortDiagram\<close>\<close>

text \<open>The path \<^verbatim>\<open>$..elements[*]\<close>.\<close>

definition elements_path :: path where
  "elements_path = [DescendantMember ''elements'', ChildWildcard]"

text \<open>The path \<^verbatim>\<open>$..relationships[*]\<close>.\<close>

definition relationships_path :: path where
  "relationships_path = [DescendantMember ''relationships'', ChildWildcard]"

text \<open>The path \<^verbatim>\<open>$..elements[?(@.containers)]\<close>.\<close>

definition elements_with_containers_path :: path where
  "elements_with_containers_path =
     [DescendantMember ''elements'', ChildFilter (Member ''containers'')]"

text \<open>
  The path
  \<^verbatim>\<open>`$..elements[?(@.containers && @.name=="${element.name}")].containers[*]`\<close>.
  The template prints \<^verbatim>\<open>element.name\<close> between the quotes: \<^verbatim>\<open>undefined\<close> for an element
  without a name, \<^verbatim>\<open>ToString\<close> of the name otherwise. The printed text stands for itself
  in the expression unless it contains a double quote (which ends the literal), a backslash
  (which starts an escape), a line break (a line feed, a carriage return or one of the
  separators U+2028 and U+2029, which neither the lexer of the path nor a literal lets
  pass) or the two characters \<^verbatim>\<open>)]\<close> (where the lexer ends the filter); a text that
  contains one of these is outside the model.
\<close>

definition plain_literal :: "string \<Rightarrow> bool" where
  "plain_literal s =
     (list_all (\<lambda>c. c \<notin> set [CHR 0x22, CHR 0x5C, CHR 0x0A, CHR 0x0D]) s
      \<and> indexOf s '')]'' = None
      \<and> indexOf s [CHR 0xE2, CHR 0x80, CHR 0xA8] = None
      \<and> indexOf s [CHR 0xE2, CHR 0x80, CHR 0xA9] = None)"

definition name_literal :: "json \<Rightarrow> error + string" where
  "name_literal element =
     bind (get_property element ''name'') (\<lambda>name.
       case name of None \<Rightarrow> Inr ''undefined'' | Some v \<Rightarrow> to_string v)"

definition containers_of_name_path :: "string \<Rightarrow> path" where
  "containers_of_name_path lit =
     [DescendantMember ''elements'',
      ChildFilter (Conj (Member ''containers'') (MemberEquals ''name'' lit)),
      ChildMember ''containers'',
      ChildWildcard]"

definition containers_path :: "json \<Rightarrow> error + path" where
  "containers_path element =
     bind (name_literal element) (\<lambda>lit.
       if plain_literal lit then Inr (containers_of_name_path lit) else Inl OutsideModel)"

text \<open>
  \<^verbatim>\<open>
  sort(actual, '$', 'elements', initial, () => '$..elements[*]', ['name']);
  sort(actual, '$', 'relationships', initial, () => '$..relationships[*]',
       ['source', 'destination']);
  sort(actual, '$..elements[?(@.containers)]', 'containers', initial,
       (element) => `$..elements[?(@.containers && @.name=="${element.name}")].containers[*]`,
       ['name']);
  \<close>
  \<open>sortDiagram\<close> takes the two parsed documents and returns the target that
  \<^verbatim>\<open>yaml.dump\<close> is given.
\<close>

definition sort_passes :: "documents \<Rightarrow> error + documents" where
  "sort_passes docs =
     bind (sort_js docs [] ''elements'' (\<lambda>element. Inr elements_path) [''name''])
       (\<lambda>docs1.
     bind (sort_js docs1 [] ''relationships'' (\<lambda>element. Inr relationships_path)
             [''source'', ''destination''])
       (\<lambda>docs2.
     sort_js docs2 elements_with_containers_path ''containers'' containers_path [''name'']))"

definition sortDiagram :: "json \<Rightarrow> json \<Rightarrow> error + json" where
  "sortDiagram initialDiagram actualDiagram =
     bind (sort_passes \<lparr>initial = initialDiagram, actual = actualDiagram\<rparr>)
       (\<lambda>docs. Inr (actual docs))"

section \<open>The reconciliation in a store\<close>

text \<open>
  \<^verbatim>\<open>sort\<close> changes the target in place: \<^verbatim>\<open>element[actualProperty].sort(...)\<close> reorders the
  array that the target holds. Whether the reference is changed as well depends on the
  objects that the two documents are made of. The model of this section keeps the objects
  of both documents in one store. Every mapping and every sequence is an object at an
  address; a property or an item holds a scalar or the address of an object; the table that
  \<^verbatim>\<open>ordering\<close> builds is an object as well.
\<close>

type_synonym address = nat

datatype stored = VNull | VBool bool | VNum int | VStr string | VRef address

datatype cell =
    ArrayCell "stored list"
  | ObjectCell "(string \<times> stored) list"
  | TableCell order_table

text \<open>
  The store lists the cells that were written, the latest first: the cell at an address is
  the first entry for it (\<open>map_of\<close>). A new object is put at the address \<open>fresh h\<close>, above
  every address in use.
\<close>

type_synonym store = "(address \<times> cell) list"

definition fresh :: "store \<Rightarrow> address" where
  "fresh h = fold (\<lambda>entry n. max (Suc (fst entry)) n) h 0"

definition put_cell :: "address \<Rightarrow> cell \<Rightarrow> store \<Rightarrow> store" where
  "put_cell a c h = (a, c) # h"

fun cell_items :: "cell \<Rightarrow> stored list" where
  "cell_items (ArrayCell xs) = xs"
| "cell_items (ObjectCell kvs) = map snd kvs"
| "cell_items (TableCell table) = []"

text \<open>
  Modelled from the spec: \<^verbatim>\<open>yaml.load\<close> belongs to the library \<^verbatim>\<open>js-yaml\<close>, which is not
  among the source files. It builds a new object for every mapping and every sequence of
  the text, the children before their parent. (A text with aliases, in which one document
  shares nodes with itself, is outside the model.)
\<close>

fun load :: "json \<Rightarrow> store \<Rightarrow> stored \<times> store"
  and load_items :: "json list \<Rightarrow> store \<Rightarrow> stored list \<times> store"
  and load_fields :: "(string \<times> json) list \<Rightarrow> store \<Rightarrow> (string \<times> stored) list \<times> store"
where
  "load JNull h = (VNull, h)"
| "load (JBool b) h = (VBool b, h)"
| "load (JNum i) h = (VNum i, h)"
| "load (JStr s) h = (VStr s, h)"
| "load (JArr xs) h =
     (case load_items xs h of
        (vs, h') \<Rightarrow> (VRef (fresh h'), put_cell (fresh h') (ArrayCell vs) h'))"
| "load (JObj kvs) h =
     (case load_fields kvs h of
        (fs, h') \<Rightarrow> (VRef (fresh h'), put_cell (fresh h') (ObjectCell fs) h'))"
| "load_items [] h = ([], h)"
| "load_items (x # xs) h =
     (case load x h of
        (v, h1) \<Rightarrow> (case load_items xs h1 of (vs, h2) \<Rightarrow> (v # vs, h2)))"
| "load_fields [] h = ([], h)"
| "load_fields ((k, x) # kvs) h =
     (case load x h of
        (v, h1) \<Rightarrow> (case load_fields kvs h1 of (fs, h2) \<Rightarrow> ((k, v) # fs, h2)))"

text \<open>
  The tree below a stored value, as the reads of the program see it, followed \<open>n\<close> objects
  deep. There is none (\<open>None\<close>) when a reference leads to no object of a document or when
  the objects go deeper than \<open>n\<close>, as they do in a cycle; such a store is outside the
  model.
\<close>

fun tree_at :: "nat \<Rightarrow> store \<Rightarrow> stored \<Rightarrow> json option" where
  "tree_at n h VNull = Some JNull"
| "tree_at n h (VBool b) = Some (JBool b)"
| "tree_at n h (VNum i) = Some (JNum i)"
| "tree_at n h (VStr s) = Some (JStr s)"
| "tree_at 0 h (VRef a) = None"
| "tree_at (Suc n) h (VRef a) =
     (case map_of h a of
        Some (ArrayCell xs) \<Rightarrow> map_option JArr (those (map (tree_at n h) xs))
      | Some (ObjectCell kvs) \<Rightarrow>
          map_option JObj
            (those (map (\<lambda>kv. map_option (Pair (fst kv)) (tree_at n h (snd kv))) kvs))
      | _ \<Rightarrow> None)"

definition read :: "nat \<Rightarrow> store \<Rightarrow> stored \<Rightarrow> error + json" where
  "read n h v = (case tree_at n h v of Some tree \<Rightarrow> Inr tree | None \<Rightarrow> Inl OutsideModel)"

text \<open>
  \<^verbatim>\<open>jp.query\<close> on the store. The components are those of \<open>select\<close>; the results are the stored
  values themselves, so that a selected element is the object of the target, not a copy. A
  filter is evaluated on the tree of the candidate.
\<close>

definition children_refs :: "store \<Rightarrow> stored \<Rightarrow> stored list" where
  "children_refs h v =
     (case v of
        VRef a \<Rightarrow> (case map_of h a of Some c \<Rightarrow> cell_items c | None \<Rightarrow> [])
      | _ \<Rightarrow> [])"

fun traverse_refs :: "nat \<Rightarrow> store \<Rightarrow> string \<Rightarrow> stored \<Rightarrow> error + stored list" where
  "traverse_refs 0 h key v = (case v of VRef a \<Rightarrow> Inl OutsideModel | _ \<Rightarrow> Inr [])"
| "traverse_refs (Suc n) h key v =
     (case v of
        VRef a \<Rightarrow>
          (case map_of h a of
             Some (ArrayCell xs) \<Rightarrow>
               bind (map_result (traverse_refs n h key) xs) (\<lambda>found. Inr (concat found))
           | Some (ObjectCell kvs) \<Rightarrow>
               bind (map_result (traverse_refs n h key) (map snd kvs)) (\<lambda>found.
                 Inr (map snd (filter (\<lambda>kv. fst kv = key) kvs) @ concat found))
           | _ \<Rightarrow> Inl OutsideModel)
      | _ \<Rightarrow> Inr [])"

fun handler_refs :: "nat \<Rightarrow> store \<Rightarrow> component \<Rightarrow> stored \<Rightarrow> error + stored list" where
  "handler_refs n h (DescendantMember key) v = traverse_refs n h key v"
| "handler_refs n h (ChildMember key) v =
     (case v of
        VRef a \<Rightarrow>
          (case map_of h a of
             Some (ObjectCell kvs) \<Rightarrow>
               (case map_of kvs key of
                  Some x \<Rightarrow> Inr [x]
                | None \<Rightarrow> if key \<in> set object_prototype_names then Inl OutsideModel else Inr [])
           | _ \<Rightarrow> Inl OutsideModel)
      | _ \<Rightarrow> Inr [])"
| "handler_refs n h ChildWildcard v = Inr (children_refs h v)"
| "handler_refs n h (ChildFilter s) v =
     filter_result (\<lambda>x. bind (read n h x) (evaluate s)) (children_refs h v)"

fun select_refs :: "nat \<Rightarrow> store \<Rightarrow> path \<Rightarrow> stored \<Rightarrow> error + stored list" where
  "select_refs n h [] v = Inr [v]"
| "select_refs n h (c # cs) v =
     bind (handler_refs n h c v) (\<lambda>partials.
     bind (map_result (select_refs n h cs) partials) (\<lambda>results. Inr (concat results)))"

fun is_ref :: "stored \<Rightarrow> bool" where
  "is_ref (VRef a) = True"
| "is_ref _ = False"

definition query_refs :: "nat \<Rightarrow> store \<Rightarrow> stored \<Rightarrow> path \<Rightarrow> error + stored list" where
  "query_refs n h obj path = (if is_ref obj then select_refs n h path obj else Inl AssertionError)"

text \<open>
  \<^verbatim>\<open>ordering\<close> on the store. It reads the reference, creates the table \<^verbatim>\<open>{}\<close> at a fresh
  address, and the callback of \<^verbatim>\<open>reduce\<close> writes \<^verbatim>\<open>acc[sortKey(item, props)] = index\<close> into
  that object. The result is the address of the table.
\<close>

fun reduce_order_in_place ::
  "string list \<Rightarrow> json list \<Rightarrow> nat \<Rightarrow> address \<Rightarrow> store \<Rightarrow> error + store" where
  "reduce_order_in_place props [] index acc h = Inr h"
| "reduce_order_in_place props (item # items) index acc h =
     bind (sortKey item props) (\<lambda>key.
       case map_of h acc of
         Some (TableCell table) \<Rightarrow>
           reduce_order_in_place props items (Suc index) acc
             (put_cell acc (TableCell (assign key index table)) h)
       | _ \<Rightarrow> Inl OutsideModel)"

definition ordering_in_place ::
  "nat \<Rightarrow> store \<Rightarrow> stored \<Rightarrow> path \<Rightarrow> string list \<Rightarrow> error + address \<times> store" where
  "ordering_in_place n h item path props =
     bind (read n h item) (\<lambda>tree.
     bind (query tree path) (\<lambda>selected.
     bind (reduce_order_in_place props selected 0 (fresh h) (put_cell (fresh h) (TableCell []) h))
       (\<lambda>h'. Inr (fresh h, h'))))"

text \<open>\<^verbatim>\<open>orderApply\<close> on the store: it reads the two nodes and the table, and writes nothing.\<close>

definition orderApply_in_place ::
  "nat \<Rightarrow> store \<Rightarrow> stored \<Rightarrow> stored \<Rightarrow> address \<Rightarrow> string list \<Rightarrow> error + int" where
  "orderApply_in_place n h a b order props =
     bind (read n h a) (\<lambda>a_tree.
     bind (read n h b) (\<lambda>b_tree.
       case map_of h order of
         Some (TableCell table) \<Rightarrow> orderApply a_tree b_tree table props
       | _ \<Rightarrow> Inl OutsideModel))"

text \<open>
  \<^verbatim>\<open>element[actualProperty].sort((a, b) => orderApply(a, b, order, props))\<close>: the property
  is read from the object of the element; the array it refers to is sorted, and its cell is
  overwritten with the sorted items. Anything but an array has no method \<^verbatim>\<open>sort\<close>, and the
  call raises.
\<close>

definition sort_property_in_place ::
  "nat \<Rightarrow> store \<Rightarrow> stored \<Rightarrow> string \<Rightarrow> address \<Rightarrow> string list \<Rightarrow> error + store" where
  "sort_property_in_place n h element actualProperty order props =
     (case element of
        VRef e \<Rightarrow>
          (case map_of h e of
             Some (ObjectCell kvs) \<Rightarrow>
               (case map_of kvs actualProperty of
                  Some (VRef c) \<Rightarrow>
                    (case map_of h c of
                       Some (ArrayCell items) \<Rightarrow>
                         bind (array_sort (\<lambda>a b. orderApply_in_place n h a b order props) items)
                           (\<lambda>sorted. Inr (put_cell c (ArrayCell sorted) h))
                     | Some other \<Rightarrow> Inl TypeError
                     | None \<Rightarrow> Inl OutsideModel)
                | _ \<Rightarrow> Inl TypeError)
           | Some other \<Rightarrow> Inl TypeError
           | None \<Rightarrow> Inl OutsideModel)
      | _ \<Rightarrow> Inl TypeError)"

text \<open>
  The callback of \<^verbatim>\<open>forEach\<close> in \<^verbatim>\<open>sort\<close>, for one selected element; \<open>reference\<close> is the
  parameter \<^verbatim>\<open>initial\<close>.
\<close>

definition sort_element_in_place ::
  "nat \<Rightarrow> string \<Rightarrow> stored \<Rightarrow> (json \<Rightarrow> error + path) \<Rightarrow> string list \<Rightarrow> store \<Rightarrow> stored
     \<Rightarrow> error + store" where
  "sort_element_in_place n actualProperty reference initialJsonPath props h element =
     bind (read n h element) (\<lambda>element_tree.
     bind (initialJsonPath element_tree) (\<lambda>path.
     bind (ordering_in_place n h reference path props) (\<lambda>(order, h1).
       sort_property_in_place n h1 element actualProperty order props)))"

text \<open>\<^verbatim>\<open>Array.prototype.forEach\<close> with a callback that changes the store.\<close>

fun for_each :: "(store \<Rightarrow> 'a \<Rightarrow> error + store) \<Rightarrow> 'a list \<Rightarrow> store \<Rightarrow> error + store" where
  "for_each f [] h = Inr h"
| "for_each f (x # xs) h = bind (f h x) (for_each f xs)"

text \<open>
  \<^verbatim>\<open>sort\<close> on the store; \<open>target\<close> and \<open>reference\<close> are the parameters \<^verbatim>\<open>actual\<close> and
  \<^verbatim>\<open>initial\<close>. The elements are selected once, before the first of them is handled.
\<close>

definition sort_in_place ::
  "nat \<Rightarrow> store \<Rightarrow> stored \<Rightarrow> path \<Rightarrow> string \<Rightarrow> stored \<Rightarrow> (json \<Rightarrow> error + path) \<Rightarrow> string list
     \<Rightarrow> error + store" where
  "sort_in_place n h target actualJsonPath actualProperty reference initialJsonPath props =
     bind (query_refs n h target actualJsonPath) (\<lambda>elements.
       for_each (sort_element_in_place n actualProperty reference initialJsonPath props) elements h)"

text \<open>The three calls of \<^verbatim>\<open>sort\<close> in \<^verbatim>\<open>sortDiagram\<close>.\<close>

definition sort_passes_in_place :: "nat \<Rightarrow> store \<Rightarrow> stored \<Rightarrow> stored \<Rightarrow> error + store" where
  "sort_passes_in_place n h reference target =
     bind (sort_in_place n h target [] ''elements'' reference (\<lambda>element. Inr elements_path)
             [''name''])
       (\<lambda>h1.
     bind (sort_in_place n h1 target [] ''relationships'' reference
             (\<lambda>element. Inr relationships_path) [''source'', ''destination''])
       (\<lambda>h2.
     sort_in_place n h2 target elements_with_containers_path ''containers'' reference
       containers_path [''name'']))"

text \<open>
  \<^verbatim>\<open>sortDiagram\<close> on the store: the two documents are loaded, the reference first, the
  passes run, and the target is read back for \<^verbatim>\<open>yaml.dump\<close>.
\<close>

definition sortDiagram_in_place :: "nat \<Rightarrow> json \<Rightarrow> json \<Rightarrow> error + json" where
  "sortDiagram_in_place n initialDiagram actualDiagram =
     (case load initialDiagram [] of
        (reference, h1) \<Rightarrow>
          (case load actualDiagram h1 of
             (target, h2) \<Rightarrow>
               bind (sort_passes_in_place n h2 reference target) (\<lambda>h3. read n h3 target)))"

section \<open>Notions used in the statements\<close>

text \<open>The text \<open>pat\<close> occurs in \<open>s\<close> at position \<open>i\<close>.\<close>

definition occurs_at :: "string \<Rightarrow> string \<Rightarrow> nat \<Rightarrow> bool" where
  "occurs_at pat s i = (i + length pat \<le> length s \<and> take (length pat) (drop i s) = pat)"

text \<open>
  The position function in the words of the spec: \<open>pos(n) = T[key(n, P)]\<close> if that key is
  present in \<open>T\<close>, and \<open>size(T)\<close> otherwise. (A node whose key cannot be built has no
  position in the spec; it is given \<open>size(T)\<close> here.)
\<close>

definition spec_position :: "order_table \<Rightarrow> string list \<Rightarrow> json \<Rightarrow> nat" where
  "spec_position T P n =
     (case sortKey n P of
        Inr key \<Rightarrow> (case map_of T key of Some i \<Rightarrow> i | None \<Rightarrow> length T)
      | Inl e \<Rightarrow> length T)"

text \<open>
  The key is the name of a member that every object inherits from \<^verbatim>\<open>Object.prototype\<close>,
  and the table has no own property of that name.
\<close>

definition inherited_only :: "order_table \<Rightarrow> string \<Rightarrow> bool" where
  "inherited_only T key = (key \<in> set object_prototype_names \<and> map_of T key = None)"

text \<open>
  The nodes that a path selects from the reference all have a key, no two of them have the
  same key, and none has the key \<^verbatim>\<open>__proto__\<close> (which the table never holds).
\<close>

definition distinct_keys :: "json \<Rightarrow> path \<Rightarrow> string list \<Rightarrow> bool" where
  "distinct_keys reference path props =
     (case bind (query reference path) (map_result (\<lambda>node. sortKey node props)) of
        Inr keys \<Rightarrow> distinct keys \<and> ''__proto__'' \<notin> set keys
      | Inl e \<Rightarrow> False)"




text \<open>
  A region of the store is the set of the addresses from \<open>lo\<close> up to \<open>hi\<close>. A stored
  value is inside the region when it is a scalar or refers into it; the region is closed
  when the objects in it hold only such values.
\<close>

fun inside :: "nat \<Rightarrow> nat \<Rightarrow> stored \<Rightarrow> bool" where
  "inside lo hi (VRef a) = (lo \<le> a \<and> a < hi)"
| "inside lo hi v = True"

definition region_closed :: "store \<Rightarrow> nat \<Rightarrow> nat \<Rightarrow> bool" where
  "region_closed h lo hi =
     (\<forall>a c. lo \<le> a \<and> a < hi \<and> map_of h a = Some c
        \<longrightarrow> (\<forall>v\<in>set (cell_items c). inside lo hi v))"

text \<open>
  What a run that started in the store \<open>h0\<close> keeps, given the region of the target: the
  region is still closed, nothing was put below the addresses that were free in \<open>h0\<close>
  except inside the region, and every other object of \<open>h0\<close> is as it was.
\<close>

definition kept :: "store \<Rightarrow> nat \<Rightarrow> nat \<Rightarrow> store \<Rightarrow> bool" where
  "kept h0 lo hi h =
     (region_closed h lo hi \<and> hi \<le> fresh h0 \<and> fresh h0 \<le> fresh h
      \<and> (\<forall>a. a < fresh h0 \<and> \<not> (lo \<le> a \<and> a < hi) \<longrightarrow> map_of h a = map_of h0 a))"

text \<open>
  What a load from the store \<open>h\<close> to the store \<open>h'\<close> guarantees for the values \<open>vs\<close> it
  returns: the objects of \<open>h\<close> are as they were, the new objects form a closed region, and
  the values are inside it.
\<close>

definition loaded :: "store \<Rightarrow> store \<Rightarrow> stored list \<Rightarrow> bool" where
  "loaded h h' vs =
     (fresh h \<le> fresh h' \<and> (\<forall>a. a < fresh h \<longrightarrow> map_of h' a = map_of h a)
      \<and> (\<forall>v\<in>set vs. inside (fresh h) (fresh h') v) \<and> region_closed h' (fresh h) (fresh h'))"

section \<open>Basic facts\<close>

lemma bind_Inr [simp]: "bind (Inr x) f = f x"
  by (simp add: bind_def)

lemma bind_Inl [simp]: "bind (Inl e) f = Inl e"
  by (simp add: bind_def)

lemma bind_eq_Inr: "bind m f = Inr y \<longleftrightarrow> (\<exists>x. m = Inr x \<and> f x = Inr y)"
  by (cases m) simp_all

lemma map_result_eq_Inr:
  "map_result f xs = Inr ys \<longleftrightarrow>
     length ys = length xs \<and> (\<forall>i<length xs. f (xs ! i) = Inr (ys ! i))"
proof (induction xs arbitrary: ys)
  case Nil
  show ?case by auto
next
  case (Cons x xs)
  show ?case
  proof (cases ys)
    case Nil
    then show ?thesis by (auto simp: bind_eq_Inr)
  next
    case (Cons y ys')
    then show ?thesis
      using Cons.IH [of ys'] by (auto simp: bind_eq_Inr less_Suc_eq_0_disj)
  qed
qed

section \<open>Properties of the Marker Normalizer\<close>

lemma indexOf_Some:
  "indexOf s pat = Some i \<Longrightarrow> occurs_at pat s i \<and> (\<forall>j<i. \<not> occurs_at pat s j)"
proof (induction s arbitrary: i)
  case Nil
  then show ?case by (auto simp: occurs_at_def split: if_splits)
next
  case (Cons c cs)
  show ?case
  proof (cases "take (length pat) (c # cs) = pat")
    case True
    with Cons.prems have "i = 0" by simp
    moreover from True have "length pat \<le> length (c # cs)"
      by (metis length_take min.cobounded1)
    ultimately show ?thesis using True by (simp add: occurs_at_def)
  next
    case False
    with Cons.prems obtain k where k: "indexOf cs pat = Some k" "i = Suc k"
      by auto
    from Cons.IH [OF k(1)] have ih: "occurs_at pat cs k" "\<forall>j<k. \<not> occurs_at pat cs j"
      by simp_all
    have "\<not> occurs_at pat (c # cs) 0"
      using False by (simp add: occurs_at_def)
    moreover have "occurs_at pat (c # cs) (Suc j) = occurs_at pat cs j" for j
      by (simp add: occurs_at_def)
    ultimately show ?thesis
      using ih k(2) by (auto simp: less_Suc_eq_0_disj)
  qed
qed

lemma indexOf_None: "indexOf s pat = None \<Longrightarrow> \<not> occurs_at pat s i"
proof (induction s arbitrary: i)
  case Nil
  then show ?case by (auto simp: occurs_at_def split: if_splits)
next
  case (Cons c cs)
  from Cons.prems have no: "take (length pat) (c # cs) \<noteq> pat" and rest: "indexOf cs pat = None"
    by (auto split: if_splits)
  show ?case
  proof (cases i)
    case 0
    then show ?thesis using no by (simp add: occurs_at_def)
  next
    case (Suc j)
    then show ?thesis using Cons.IH [OF rest, of j] by (simp add: occurs_at_def)
  qed
qed

text \<open>
  Claim C7, as the code has it. If the marker \<^verbatim>\<open>---\<close> occurs in the text, \<open>prepareYaml\<close>
  returns the text from the first occurrence of the marker on, and everything before it is
  dropped. If the marker does not occur, \<open>prepareYaml\<close> returns the marker, a line feed and
  then the text unchanged.
\<close>

theorem prepareYaml_from_first_marker:
  "(occurs_at ''---'' t i \<and> (\<forall>j<i. \<not> occurs_at ''---'' t j) \<longrightarrow> prepareYaml t = drop i t)
   \<and> ((\<forall>k. \<not> occurs_at ''---'' t k) \<longrightarrow> prepareYaml t = ''---'' @ [CHR 0x0A] @ t)"
proof (cases "indexOf t ''---''")
  case None
  then show ?thesis
    using indexOf_None [OF None] by (simp add: prepareYaml_def)
next
  case (Some k)
  from indexOf_Some [OF Some]
  have k: "occurs_at ''---'' t k" "\<forall>j<k. \<not> occurs_at ''---'' t j"
    by simp_all
  have "i = k" if "occurs_at ''---'' t i" "\<forall>j<i. \<not> occurs_at ''---'' t j"
    using that k by (meson linorder_neqE_nat)
  then show ?thesis
    using Some k by (auto simp: prepareYaml_def)
qed

theorem prepareYaml_from_first_marker_witness:
  "occurs_at ''---'' ''ab---c'' 2 \<and> prepareYaml ''ab---c'' = ''---c''
   \<and> prepareYaml ''a: 1'' = ''---'' @ [CHR 0x0A] @ ''a: 1''"
proof -
  have occ: "occurs_at ''---'' ''ab---c'' 2"
    by (simp add: occurs_at_def)
  have first: "\<forall>j<2. \<not> occurs_at ''---'' ''ab---c'' j"
    by (simp add: occurs_at_def less_Suc_eq numeral_2_eq_2)
  have none: "\<forall>k. \<not> occurs_at ''---'' ''a: 1'' k"
    by (rule allI, rule indexOf_None) simp
  from prepareYaml_from_first_marker [of "''ab---c''" 2] occ first
  have "prepareYaml ''ab---c'' = ''---c''" by simp
  moreover from prepareYaml_from_first_marker [of "''a: 1''" 0] none
  have "prepareYaml ''a: 1'' = ''---'' @ [CHR 0x0A] @ ''a: 1''" by blast
  ultimately show ?thesis using occ by simp
qed

text \<open>
  Claim C7 as stated fails: for a text without the marker the result is not the marker
  followed at once by the text. The text \<^verbatim>\<open>a: 1\<close> has no marker, and the result is not
  \<^verbatim>\<open>---a: 1\<close> (a line feed separates the two).
\<close>

theorem prepareYaml_prepends_marker_counterexample:
  "indexOf ''a: 1'' ''---'' = None \<and> prepareYaml ''a: 1'' \<noteq> ''---'' @ ''a: 1''"
  by (simp add: prepareYaml_def)

section \<open>Properties of the Empty-Value Pruner\<close>

text \<open>
  Claim C6. For the mapping \<^verbatim>\<open>{a: null, b: "", c: "x", d: 0, e: false}\<close> the pruner
  returns exactly \<^verbatim>\<open>{c: "x", d: 0, e: false}\<close>: the null and the empty string are
  removed, \<open>0\<close> and \<open>false\<close> are kept.
\<close>

theorem removeEmptyElements_flat_mapping:
  "removeEmptyElements
     (JObj [(''a'', JNull), (''b'', JStr ''''), (''c'', JStr ''x''), (''d'', JNum 0),
            (''e'', JBool False)])
   = JObj [(''c'', JStr ''x''), (''d'', JNum 0), (''e'', JBool False)]"
  by (simp add: is_empty_value_def)

text \<open>
  Claim C5 at the sequence \<^verbatim>\<open>[null, null]\<close>: the pruner removes the first item, the
  second moves to index \<open>0\<close>, and the loop goes on at index \<open>1\<close>, which no longer exists.
  A null item is left in the result.
\<close>

theorem removeEmptyElements_skips_sibling:
  "removeEmptyElements (JArr [JNull, JNull]) = JArr [JNull]"
  by (simp add: is_empty_value_def)

section \<open>Properties of the Key Extractor\<close>

lemma indexOf_single_absent: "c \<notin> set s \<Longrightarrow> indexOf s [c] = None"
  by (induction s) auto

lemma indexOf_single_first: "c \<notin> set pre \<Longrightarrow> indexOf (pre @ c # suf) [c] = Some (length pre)"
  by (induction pre) auto

lemma replace_single_absent: "c \<notin> set s \<Longrightarrow> replace s [c] rep = s"
  by (simp add: replace_def indexOf_single_absent)

lemma replace_single_first: "c \<notin> set pre \<Longrightarrow> replace (pre @ c # suf) [c] rep = pre @ rep @ suf"
  by (simp add: replace_def indexOf_single_first)

text \<open>
  Claim C4, as the code has it. The key of a node for a list of property names is built
  from one segment per name, in the order of the list: the string form of the value of that
  property, and the empty text when the property is missing or null. The segments are joined
  with a full stop. In the joined text the first space character, if there is one, is
  replaced by an underscore; everything else is left as it is.
\<close>

theorem sortKey_joins_and_replaces_first_space:
  assumes "sortKey item props = Inr key"
  shows "\<exists>segments joined.
           length segments = length props
         \<and> (\<forall>i<length props.
               \<exists>v. get_property item (props ! i) = Inr v \<and> join_segment v = Inr (segments ! i)
                 \<and> (v = None \<or> v = Some JNull \<longrightarrow> segments ! i = []))
         \<and> joined = join_with ''.'' segments
         \<and> (if CHR '' '' \<in> set joined
             then \<exists>pre suf. joined = pre @ '' '' @ suf \<and> CHR '' '' \<notin> set pre
                    \<and> key = pre @ ''_'' @ suf
             else key = joined)"
proof -
  from assms obtain vals segments
    where vals: "map_result (get_property item) props = Inr vals"
      and segs: "map_result join_segment vals = Inr segments"
      and key: "key = replace (join_with ''.'' segments) '' '' ''_''"
    by (auto simp: sortKey_def join_def bind_eq_Inr)
  from vals have lv: "length vals = length props"
    and v: "\<And>i. i < length props \<Longrightarrow> get_property item (props ! i) = Inr (vals ! i)"
    by (simp_all add: map_result_eq_Inr)
  from segs have ls: "length segments = length vals"
    and sg: "\<And>i. i < length vals \<Longrightarrow> join_segment (vals ! i) = Inr (segments ! i)"
    by (simp_all add: map_result_eq_Inr)
  have empty: "segments ! i = []" if "i < length props" "vals ! i = None \<or> vals ! i = Some JNull" for i
    using sg [of i] that lv by (auto simp: join_segment_def)
  let ?joined = "join_with ''.'' segments"
  have "if CHR '' '' \<in> set ?joined
        then \<exists>pre suf. ?joined = pre @ '' '' @ suf \<and> CHR '' '' \<notin> set pre \<and> key = pre @ ''_'' @ suf
        else key = ?joined"
  proof (cases "CHR '' '' \<in> set ?joined")
    case True
    then obtain pre suf where split: "?joined = pre @ CHR '' '' # suf" "CHR '' '' \<notin> set pre"
      by (meson split_list_first)
    then have "key = pre @ ''_'' @ suf"
      using key replace_single_first [of "CHR '' ''" pre suf "''_''"] by simp
    with split True show ?thesis by auto
  next
    case False
    then show ?thesis using key by (simp add: replace_single_absent)
  qed
  then show ?thesis
    using lv ls v sg empty by (intro exI [of _ segments] exI [of _ ?joined]) auto
qed

theorem sortKey_joins_and_replaces_first_space_witness:
  "sortKey (JObj [(''name'', JStr ''a b c''), (''type'', JNull)]) [''name'', ''type'', ''tags'']
     = Inr ''a_b c..''
   \<and> (\<exists>segments joined.
           length segments = length [''name'', ''type'', ''tags'']
         \<and> joined = join_with ''.'' segments
         \<and> (\<exists>pre suf. joined = pre @ '' '' @ suf \<and> CHR '' '' \<notin> set pre
                    \<and> ''a_b c..'' = pre @ ''_'' @ suf))"
proof -
  have key: "sortKey (JObj [(''name'', JStr ''a b c''), (''type'', JNull)])
               [''name'', ''type'', ''tags''] = Inr ''a_b c..''"
    by (simp add: sortKey_def join_def join_segment_def replace_def object_prototype_names_def)
  from sortKey_joins_and_replaces_first_space [OF key]
  obtain segments joined where
    l: "length segments = length [''name'', ''type'', ''tags'']" and
    j: "joined = join_with ''.'' segments" and
    alt: "if CHR '' '' \<in> set joined
          then \<exists>pre suf. joined = pre @ '' '' @ suf \<and> CHR '' '' \<notin> set pre
                 \<and> ''a_b c..'' = pre @ ''_'' @ suf
          else ''a_b c..'' = joined"
    by blast
  have "CHR '' '' \<in> set joined"
  proof (rule ccontr)
    assume "CHR '' '' \<notin> set joined"
    with alt have "joined = ''a_b c..''" by simp
    then show False using \<open>CHR '' '' \<notin> set joined\<close> by simp
  qed
  with alt l j key show ?thesis by auto
qed

text \<open>
  Claim C4 as stated fails: the first whitespace character is not stripped. For the name
  \<^verbatim>\<open>a b\<close> the key is \<^verbatim>\<open>a_b\<close>, not \<^verbatim>\<open>ab\<close>; and for a name whose first whitespace
  character is a tab, the tab stays and the first space behind it becomes an underscore.
\<close>

theorem sortKey_strips_whitespace_counterexample:
  "sortKey (JObj [(''name'', JStr ''a b'')]) [''name''] = Inr ''a_b''
   \<and> sortKey (JObj [(''name'', JStr [CHR ''a'', CHR 0x09, CHR ''b'', CHR '' '', CHR ''c''])]) [''name'']
       = Inr [CHR ''a'', CHR 0x09, CHR ''b'', CHR ''_'', CHR ''c'']"
  by (simp add: sortKey_def join_def join_segment_def replace_def)

text \<open>
  Claim C10. The key is not injective: the relationship from \<^verbatim>\<open>a.b\<close> to \<^verbatim>\<open>c\<close> and
  the relationship from \<^verbatim>\<open>a\<close> to \<^verbatim>\<open>b.c\<close> differ in both properties and have the same
  key \<^verbatim>\<open>a.b.c\<close>, so that for every order table the comparison of the two is a tie.
\<close>

theorem sortKey_not_injective:
  "\<exists>a b key.
       get_property a ''source'' \<noteq> get_property b ''source''
     \<and> get_property a ''destination'' \<noteq> get_property b ''destination''
     \<and> sortKey a [''source'', ''destination''] = Inr key
     \<and> sortKey b [''source'', ''destination''] = Inr key
     \<and> (\<forall>order. orderApply a b order [''source'', ''destination''] = Inr 0)"
proof -
  let ?a = "JObj [(''source'', JStr ''a.b''), (''destination'', JStr ''c'')]"
  let ?b = "JObj [(''source'', JStr ''a''), (''destination'', JStr ''b.c'')]"
  have a: "sortKey ?a [''source'', ''destination''] = Inr ''a.b.c''"
    by (simp add: sortKey_def join_def join_segment_def replace_def)
  have b: "sortKey ?b [''source'', ''destination''] = Inr ''a.b.c''"
    by (simp add: sortKey_def join_def join_segment_def replace_def)
  have "\<not> string_less t t" for t
    by (induction t) simp_all
  then have "less_position p p = False" for p
    by (cases p) simp_all
  then have "orderApply ?a ?b order [''source'', ''destination''] = Inr 0" for order
    by (simp add: orderApply_def a b)
  then show ?thesis
    using a b by (intro exI [of _ ?a] exI [of _ ?b] exI [of _ "''a.b.c''"]) simp
qed

section \<open>Properties of the Reorderer\<close>

lemma insert_sorted_mset:
  "insert_sorted cmp x ys = Inr zs \<Longrightarrow> mset zs = add_mset x (mset ys)"
proof (induction ys arbitrary: zs)
  case Nil
  then show ?case by auto
next
  case (Cons y ys)
  then show ?case
    by (auto simp: bind_eq_Inr split: if_splits)
qed

lemma array_sort_mset: "array_sort cmp xs = Inr ys \<Longrightarrow> mset ys = mset xs"
proof (induction xs arbitrary: ys)
  case Nil
  then show ?case by simp
next
  case (Cons x xs)
  then show ?case
    by (auto simp: bind_eq_Inr dest: insert_sorted_mset)
qed

text \<open>
  Claim C3. Whenever the sort of a collection with the comparison \<open>orderApply\<close> returns,
  its result is a permutation of the collection: the same nodes with the same
  multiplicities, hence as many.
\<close>

theorem reorder_is_permutation:
  assumes "array_sort (\<lambda>a b. orderApply a b order props) xs = Inr ys"
  shows "mset ys = mset xs \<and> length ys = length xs"
proof -
  from assms have "mset ys = mset xs" by (rule array_sort_mset)
  then show ?thesis by (auto dest: mset_eq_length)
qed

theorem reorder_is_permutation_witness:
  "array_sort (\<lambda>a b. orderApply a b [(''Y'', 0), (''X'', 1)] [''name''])
       [JObj [(''name'', JStr ''X'')], JObj [(''name'', JStr ''Y'')], JObj [(''name'', JStr ''Z'')]]
     = Inr [JObj [(''name'', JStr ''Y'')], JObj [(''name'', JStr ''X'')], JObj [(''name'', JStr ''Z'')]]
   \<and> mset [JObj [(''name'', JStr ''Y'')], JObj [(''name'', JStr ''X'')], JObj [(''name'', JStr ''Z'')]]
     = mset [JObj [(''name'', JStr ''X'')], JObj [(''name'', JStr ''Y'')], JObj [(''name'', JStr ''Z'')]]"
proof -
  have run: "array_sort (\<lambda>a b. orderApply a b [(''Y'', 0), (''X'', 1)] [''name''])
       [JObj [(''name'', JStr ''X'')], JObj [(''name'', JStr ''Y'')], JObj [(''name'', JStr ''Z'')]]
     = Inr [JObj [(''name'', JStr ''Y'')], JObj [(''name'', JStr ''X'')], JObj [(''name'', JStr ''Z'')]]"
    by (simp add: orderApply_def sortKey_def join_def join_segment_def replace_def
        position_of_def has_property_def object_prototype_names_def)
  from reorder_is_permutation [OF run] run show ?thesis by simp
qed

lemma position_of_own:
  "\<not> inherited_only T key \<Longrightarrow>
     position_of T key = Index (case map_of T key of Some i \<Rightarrow> i | None \<Rightarrow> length T)"
  by (auto simp: position_of_def has_property_def inherited_only_def split: option.splits)

lemma orderApply_sign:
  assumes "orderApply a b T P = Inr c"
    and "\<And>key. sortKey a P = Inr key \<Longrightarrow> \<not> inherited_only T key"
    and "\<And>key. sortKey b P = Inr key \<Longrightarrow> \<not> inherited_only T key"
  shows "c \<le> 0 \<longleftrightarrow> spec_position T P a \<le> spec_position T P b"
proof -
  from assms(1) obtain ka kb where k: "sortKey a P = Inr ka" "sortKey b P = Inr kb"
    by (auto simp: orderApply_def bind_eq_Inr)
  have pa: "position_of T ka = Index (spec_position T P a)"
    using position_of_own [OF assms(2) [OF k(1)]] k(1) by (simp add: spec_position_def)
  have pb: "position_of T kb = Index (spec_position T P b)"
    using position_of_own [OF assms(3) [OF k(2)]] k(2) by (simp add: spec_position_def)
  from assms(1) show ?thesis
    by (auto simp: orderApply_def k pa pb Let_def split: if_splits)
qed

lemma insert_sorted_insort_key:
  fixes f :: "'a \<Rightarrow> nat"
  assumes "insert_sorted cmp x ys = Inr zs"
    and "\<And>y c. y \<in> set ys \<Longrightarrow> cmp x y = Inr c \<Longrightarrow> (c \<le> 0 \<longleftrightarrow> f x \<le> f y)"
  shows "zs = insort_key f x ys"
  using assms
proof (induction ys arbitrary: zs)
  case Nil
  then show ?case by simp
next
  case (Cons y ys)
  from Cons.prems(1) obtain c where c: "cmp x y = Inr c"
    by (auto simp: bind_eq_Inr)
  have sign: "c \<le> 0 \<longleftrightarrow> f x \<le> f y"
    using Cons.prems(2) [of y c] c by simp
  show ?case
  proof (cases "c \<le> 0")
    case True
    with Cons.prems(1) c sign show ?thesis by simp
  next
    case False
    with Cons.prems(1) c obtain zs' where zs': "insert_sorted cmp x ys = Inr zs'" "zs = y # zs'"
      by (auto simp: bind_eq_Inr)
    from Cons.IH [OF zs'(1)] Cons.prems(2) have "zs' = insort_key f x ys" by simp
    with zs'(2) False sign show ?thesis by simp
  qed
qed

lemma array_sort_sort_key:
  fixes f :: "'a \<Rightarrow> nat"
  assumes "array_sort cmp xs = Inr ys"
    and "\<And>x y c. x \<in> set xs \<Longrightarrow> y \<in> set xs \<Longrightarrow> cmp x y = Inr c \<Longrightarrow> (c \<le> 0 \<longleftrightarrow> f x \<le> f y)"
  shows "ys = sort_key f xs"
  using assms
proof (induction xs arbitrary: ys)
  case Nil
  then show ?case by simp
next
  case (Cons x xs)
  from Cons.prems(1) obtain ys' where ys': "array_sort cmp xs = Inr ys'" "insert_sorted cmp x ys' = Inr ys"
    by (auto simp: bind_eq_Inr)
  from Cons.IH [OF ys'(1)] Cons.prems(2) have eq: "ys' = sort_key f xs" by simp
  have "ys = insort_key f x ys'"
    using ys'(2)
  proof (rule insert_sorted_insort_key)
    fix y c
    assume "y \<in> set ys'" "cmp x y = Inr c"
    then show "c \<le> 0 \<longleftrightarrow> f x \<le> f y"
      using Cons.prems(2) [of x y c] eq by simp
  qed
  with eq show ?case by simp
qed

text \<open>
  Claim C2, as the code has it. Let no node of the collection have a key that names an
  inherited member of \<^verbatim>\<open>Object.prototype\<close> without being a key of the table. Then the
  result of the sort is ordered by the position function \<open>pos\<close> of the spec; nodes of equal
  position (in particular the unmatched nodes, all at \<open>size(T)\<close>) keep their relative order
  of the input; and every unmatched node comes after every node whose position is below
  \<open>size(T)\<close>.
\<close>

theorem reorder_sorts_stably_by_position:
  assumes run: "array_sort (\<lambda>a b. orderApply a b T P) xs = Inr ys"
    and own: "\<forall>n\<in>set xs. \<forall>key. sortKey n P = Inr key \<longrightarrow> \<not> inherited_only T key"
  shows "sorted (map (spec_position T P) ys)
       \<and> (\<forall>p. filter (\<lambda>n. spec_position T P n = p) ys = filter (\<lambda>n. spec_position T P n = p) xs)
       \<and> (\<forall>i j key. i < length ys \<and> j < length ys
             \<and> sortKey (ys ! i) P = Inr key \<and> map_of T key = None
             \<and> spec_position T P (ys ! j) < length T \<longrightarrow> j < i)"
proof -
  have ys: "ys = sort_key (spec_position T P) xs"
    using run
  proof (rule array_sort_sort_key)
    fix x y c
    assume "x \<in> set xs" "y \<in> set xs" "orderApply x y T P = Inr c"
    then show "c \<le> 0 \<longleftrightarrow> spec_position T P x \<le> spec_position T P y"
      using own by (intro orderApply_sign) auto
  qed
  then have sorted: "sorted (map (spec_position T P) ys)"
    by (simp add: sorted_sort_key)
  have stable: "filter (\<lambda>n. spec_position T P n = p) ys = filter (\<lambda>n. spec_position T P n = p) xs" for p
    using ys by (simp add: sort_key_stable)
  have last: "j < i"
    if "i < length ys" "j < length ys" "sortKey (ys ! i) P = Inr key" "map_of T key = None"
      "spec_position T P (ys ! j) < length T" for i j key
  proof (rule ccontr)
    assume "\<not> j < i"
    then have "i \<le> j" by simp
    with sorted that(2) have "map (spec_position T P) ys ! i \<le> map (spec_position T P) ys ! j"
      by (intro sorted_nth_mono) simp_all
    moreover have "spec_position T P (ys ! i) = length T"
      using that(3,4) by (simp add: spec_position_def)
    ultimately show False using that(1,2,5) by simp
  qed
  from sorted stable last show ?thesis by blast
qed

theorem reorder_sorts_stably_by_position_witness:
  "array_sort (\<lambda>a b. orderApply a b [(''Y'', 0), (''X'', 1)] [''name''])
       [JObj [(''name'', JStr ''W'')], JObj [(''name'', JStr ''X'')],
        JObj [(''name'', JStr ''Y'')], JObj [(''name'', JStr ''Z'')]]
     = Inr [JObj [(''name'', JStr ''Y'')], JObj [(''name'', JStr ''X'')],
            JObj [(''name'', JStr ''W'')], JObj [(''name'', JStr ''Z'')]]
   \<and> sorted (map (spec_position [(''Y'', 0), (''X'', 1)] [''name''])
       [JObj [(''name'', JStr ''Y'')], JObj [(''name'', JStr ''X'')],
        JObj [(''name'', JStr ''W'')], JObj [(''name'', JStr ''Z'')]])"
proof -
  let ?T = "[(''Y'', 0), (''X'', 1)] :: order_table"
  let ?xs = "[JObj [(''name'', JStr ''W'')], JObj [(''name'', JStr ''X'')],
        JObj [(''name'', JStr ''Y'')], JObj [(''name'', JStr ''Z'')]]"
  have key: "sortKey (JObj [(''name'', JStr n)]) [''name''] = Inr (replace n '' '' ''_'')" for n
    by (simp add: sortKey_def join_def join_segment_def)
  have run: "array_sort (\<lambda>a b. orderApply a b ?T [''name'']) ?xs
     = Inr [JObj [(''name'', JStr ''Y'')], JObj [(''name'', JStr ''X'')],
            JObj [(''name'', JStr ''W'')], JObj [(''name'', JStr ''Z'')]]"
    by (simp add: orderApply_def key replace_def position_of_def has_property_def
        object_prototype_names_def)
  have own: "\<forall>n\<in>set ?xs. \<forall>key. sortKey n [''name''] = Inr key \<longrightarrow> \<not> inherited_only ?T key"
    by (auto simp: key replace_def inherited_only_def object_prototype_names_def)
  from reorder_sorts_stably_by_position [OF run own] run show ?thesis by simp
qed

text \<open>
  Claim C2 as stated fails: an unmatched node can sort before a matched one. The reference
  \<^verbatim>\<open>elements: [A, A, A, B]\<close> gives the table \<^verbatim>\<open>{A: 2, B: 3}\<close> of size \<open>2\<close> (a repeated
  key keeps its last index). In the target \<^verbatim>\<open>[B, Z]\<close> the node \<open>B\<close> is matched, at position
  \<open>3\<close>, and \<open>Z\<close> is unmatched, at position \<open>2\<close>: the sort returns \<^verbatim>\<open>[Z, B]\<close>.
\<close>

theorem reorder_unmatched_last_counterexample:
  "ordering (JObj [(''elements'', JArr [JObj [(''name'', JStr ''A'')], JObj [(''name'', JStr ''A'')],
                                        JObj [(''name'', JStr ''A'')], JObj [(''name'', JStr ''B'')]])])
      [DescendantMember ''elements'', ChildWildcard] [''name'']
     = Inr [(''A'', 2), (''B'', 3)]
   \<and> sortKey (JObj [(''name'', JStr ''B'')]) [''name''] = Inr ''B''
   \<and> map_of [(''A'', 2 :: nat), (''B'', 3)] ''B'' = Some 3
   \<and> sortKey (JObj [(''name'', JStr ''Z'')]) [''name''] = Inr ''Z''
   \<and> map_of [(''A'', 2 :: nat), (''B'', 3)] ''Z'' = None
   \<and> array_sort (\<lambda>a b. orderApply a b [(''A'', 2), (''B'', 3)] [''name''])
        [JObj [(''name'', JStr ''B'')], JObj [(''name'', JStr ''Z'')]]
     = Inr [JObj [(''name'', JStr ''Z'')], JObj [(''name'', JStr ''B'')]]"
  by (simp add: ordering_def query_def assign_def orderApply_def sortKey_def join_def
      join_segment_def replace_def position_of_def has_property_def object_prototype_names_def)

section \<open>Properties of the Path Selector and of the update in place\<close>

lemma map_result_id: "(\<And>x. x \<in> set xs \<Longrightarrow> g x = Inr x) \<Longrightarrow> map_result g xs = Inr xs"
  by (induction xs) simp_all

lemma map_result_member:
  assumes "map_result g xs = Inr rs" and "x \<in> set xs"
  shows "\<exists>r. g x = Inr r \<and> r \<in> set rs"
proof -
  from assms(2) obtain i where i: "i < length xs" "xs ! i = x"
    by (auto simp: in_set_conv_nth)
  with assms(1) have "g x = Inr (rs ! i)" "i < length rs"
    by (auto simp: map_result_eq_Inr)
  then show ?thesis by auto
qed

lemma map_result_total:
  assumes "\<And>x. x \<in> set xs \<Longrightarrow> \<exists>r. g x = Inr r \<and> set r \<subseteq> S"
  shows "\<exists>rs. map_result g xs = Inr rs \<and> set (concat rs) \<subseteq> S"
  using assms
proof (induction xs)
  case Nil
  then show ?case by simp
next
  case (Cons x xs)
  from Cons.prems [of x] obtain r where r: "g x = Inr r" "set r \<subseteq> S" by auto
  from Cons.IH Cons.prems obtain rs where rs: "map_result g xs = Inr rs" "set (concat rs) \<subseteq> S"
    by auto
  from r rs show ?case by simp
qed

lemma select_Cons_eq_Inr:
  "select (c # cs) v = Inr es \<longleftrightarrow>
     (\<exists>ps rs. handler c v = Inr ps \<and> map_result (select cs) ps = Inr rs \<and> es = concat rs)"
  by (auto simp: bind_eq_Inr)

lemma select_Cons_member:
  assumes "select (c # cs) v = Inr es" and "handler c v = Inr ps" and "p \<in> set ps"
  shows "\<exists>r. select cs p = Inr r \<and> set r \<subseteq> set es"
proof -
  from assms(1,2) obtain rs where rs: "map_result (select cs) ps = Inr rs" "es = concat rs"
    by (auto simp: bind_eq_Inr)
  from map_result_member [OF rs(1) assms(3)] rs(2) show ?thesis by auto
qed

lemma filter_result_member:
  "filter_result p xs = Inr ys \<Longrightarrow> x \<in> set xs \<Longrightarrow> \<exists>b. p x = Inr b \<and> (b \<longrightarrow> x \<in> set ys)"
proof (induction xs arbitrary: ys)
  case Nil
  then show ?case by simp
next
  case (Cons a xs)
  then show ?case
    by (auto simp: bind_eq_Inr split: if_splits)
qed

lemma filter_result_passed:
  "filter_result p xs = Inr ys \<Longrightarrow> y \<in> set ys \<Longrightarrow> y \<in> set xs \<and> p y = Inr True"
proof (induction xs arbitrary: ys)
  case Nil
  then show ?case by simp
next
  case (Cons a xs)
  then show ?case
    by (auto simp: bind_eq_Inr split: if_splits)
qed

lemma traverse_item: "x \<in> set xs \<Longrightarrow> set (traverse key x) \<subseteq> set (traverse key (JArr xs))"
  by auto

lemma traverse_property:
  "kv \<in> set kvs \<Longrightarrow> set (traverse key (snd kv)) \<subseteq> set (traverse key (JObj kvs))"
  by auto

lemma traverse_match: "kv \<in> set kvs \<Longrightarrow> fst kv = key \<Longrightarrow> snd kv \<in> set (traverse key (JObj kvs))"
  by auto

lemma replace_own_same: "map_of kvs key = Some x \<Longrightarrow> replace_own key x kvs = kvs"
  by (induction kvs) (auto split: if_splits)

lemma update_at_unchanged:
  "select path v = Inr es \<Longrightarrow> (\<And>e. e \<in> set es \<Longrightarrow> f e = Inr e) \<Longrightarrow> update_at path f v = Inr v"
proof (induction path f v arbitrary: es rule: update_at.induct)
  case (1 f v)
  then show ?case by auto
next
  case (2 key cs f v)
  let ?p = "DescendantMember key # cs"
  have matched: "\<exists>r. select cs p = Inr r \<and> set r \<subseteq> set es" if "p \<in> set (traverse key v)" for p
    using select_Cons_member [OF "2.prems"(1) _ that] by simp
  have inside: "\<exists>es'. select ?p w = Inr es' \<and> set es' \<subseteq> set es"
    if "set (traverse key w) \<subseteq> set (traverse key v)" for w
  proof -
    from map_result_total [of "traverse key w" "select cs" "set es"] matched that
    obtain rs where "map_result (select cs) (traverse key w) = Inr rs" "set (concat rs) \<subseteq> set es"
      by blast
    then show ?thesis by simp
  qed
  show ?case
  proof (cases v)
    case (JArr xs)
    have "update_at ?p f x = Inr x" if "x \<in> set xs" for x
    proof -
      from inside [of x] traverse_item [OF that, of key] JArr
      obtain es' where "select ?p x = Inr es'" "set es' \<subseteq> set es" by auto
      with "2.IH"(1) [OF JArr that] "2.prems"(2) show ?thesis by blast
    qed
    then have "map_result (update_at ?p f) xs = Inr xs"
      by (rule map_result_id)
    with JArr show ?thesis by simp
  next
    case (JObj kvs)
    have "bind (update_at ?p f (snd kv)) (\<lambda>x.
            if fst kv = key then bind (update_at cs f x) (\<lambda>y. Inr (fst kv, y))
            else Inr (fst kv, x)) = Inr kv" if kv: "kv \<in> set kvs" for kv
    proof -
      from inside [of "snd kv"] traverse_property [OF kv, of key] JObj
      obtain es' where "select ?p (snd kv) = Inr es'" "set es' \<subseteq> set es" by auto
      with "2.IH"(2) [OF JObj kv] "2.prems"(2)
      have inner: "update_at ?p f (snd kv) = Inr (snd kv)" by blast
      show ?thesis
      proof (cases "fst kv = key")
        case True
        from matched [of "snd kv"] traverse_match [OF kv True] JObj
        obtain r where "select cs (snd kv) = Inr r" "set r \<subseteq> set es" by auto
        with "2.IH"(3) [OF JObj kv inner True] "2.prems"(2)
        have "update_at cs f (snd kv) = Inr (snd kv)" by blast
        with inner True show ?thesis by (simp add: prod_eq_iff)
      next
        case False
        with inner show ?thesis by simp
      qed
    qed
    then have "map_result (\<lambda>kv. bind (update_at ?p f (snd kv)) (\<lambda>x.
            if fst kv = key then bind (update_at cs f x) (\<lambda>y. Inr (fst kv, y))
            else Inr (fst kv, x))) kvs = Inr kvs"
      by (rule map_result_id)
    with JObj show ?thesis by simp
  qed simp_all
next
  case (3 key cs f v)
  show ?case
  proof (cases v)
    case (JObj kvs)
    show ?thesis
    proof (cases "map_of kvs key")
      case None
      with "3.prems"(1) JObj show ?thesis
        by (auto simp: bind_eq_Inr split: if_splits)
    next
      case (Some x)
      with JObj have "handler (ChildMember key) v = Inr [x]" by simp
      from select_Cons_member [OF "3.prems"(1) this]
      obtain r where "select cs x = Inr r" "set r \<subseteq> set es" by auto
      with "3.IH" [OF JObj Some] "3.prems"(2) have "update_at cs f x = Inr x" by blast
      with JObj Some show ?thesis by (simp add: replace_own_same)
    qed
  next
    case (JArr xs)
    with "3.prems"(1) show ?thesis by simp
  qed simp_all
next
  case (4 cs f v)
  have child: "\<exists>r. select cs p = Inr r \<and> set r \<subseteq> set es" if "p \<in> set (children v)" for p
    using select_Cons_member [OF "4.prems"(1) _ that] by simp
  show ?case
  proof (cases v)
    case (JArr xs)
    have "update_at cs f x = Inr x" if "x \<in> set xs" for x
      using child [of x] that JArr "4.IH"(1) [OF JArr that] "4.prems"(2) by auto
    then have "map_result (update_at cs f) xs = Inr xs"
      by (rule map_result_id)
    with JArr show ?thesis by simp
  next
    case (JObj kvs)
    have "bind (update_at cs f (snd kv)) (\<lambda>y. Inr (fst kv, y)) = Inr kv" if "kv \<in> set kvs" for kv
    proof -
      from child [of "snd kv"] that JObj obtain r where "select cs (snd kv) = Inr r" "set r \<subseteq> set es"
        by auto
      with "4.IH"(2) [OF JObj that] "4.prems"(2) have "update_at cs f (snd kv) = Inr (snd kv)"
        by blast
      then show ?thesis by simp
    qed
    then have "map_result (\<lambda>kv. bind (update_at cs f (snd kv)) (\<lambda>y. Inr (fst kv, y))) kvs = Inr kvs"
      by (rule map_result_id)
    with JObj show ?thesis by simp
  qed simp_all
next
  case (5 s cs f v)
  from "5.prems"(1) obtain ps where ps: "filter_result (evaluate s) (children v) = Inr ps"
    by (auto simp: bind_eq_Inr)
  then have h: "handler (ChildFilter s) v = Inr ps" by simp
  have child: "\<exists>b. evaluate s p = Inr b \<and> (b \<longrightarrow> (\<exists>r. select cs p = Inr r \<and> set r \<subseteq> set es))"
    if "p \<in> set (children v)" for p
  proof -
    from filter_result_member [OF ps that] obtain b where b: "evaluate s p = Inr b" "b \<longrightarrow> p \<in> set ps"
      by auto
    show ?thesis
    proof (cases b)
      case True
      with b select_Cons_member [OF "5.prems"(1) h, of p] show ?thesis by auto
    next
      case False
      with b show ?thesis by auto
    qed
  qed
  show ?case
  proof (cases v)
    case (JArr xs)
    have "bind (evaluate s x) (\<lambda>b. if b then update_at cs f x else Inr x) = Inr x"
      if "x \<in> set xs" for x
    proof -
      from child [of x] that JArr obtain b where
        b: "evaluate s x = Inr b" "b \<longrightarrow> (\<exists>r. select cs x = Inr r \<and> set r \<subseteq> set es)"
        by auto
      show ?thesis
      proof (cases b)
        case True
        with b obtain r where "select cs x = Inr r" "set r \<subseteq> set es" by auto
        with "5.IH"(1) [OF JArr that b(1) True] "5.prems"(2) have "update_at cs f x = Inr x"
          by blast
        with b(1) True show ?thesis by simp
      next
        case False
        with b(1) show ?thesis by simp
      qed
    qed
    then have "map_result (\<lambda>x. bind (evaluate s x) (\<lambda>b. if b then update_at cs f x else Inr x)) xs
                 = Inr xs"
      by (rule map_result_id)
    with JArr show ?thesis by simp
  next
    case (JObj kvs)
    have "bind (evaluate s (snd kv)) (\<lambda>b.
            if b then bind (update_at cs f (snd kv)) (\<lambda>y. Inr (fst kv, y)) else Inr kv) = Inr kv"
      if "kv \<in> set kvs" for kv
    proof -
      from child [of "snd kv"] that JObj obtain b where
        b: "evaluate s (snd kv) = Inr b"
           "b \<longrightarrow> (\<exists>r. select cs (snd kv) = Inr r \<and> set r \<subseteq> set es)"
        by auto
      show ?thesis
      proof (cases b)
        case True
        with b obtain r where "select cs (snd kv) = Inr r" "set r \<subseteq> set es" by auto
        with "5.IH"(2) [OF JObj that b(1) True] "5.prems"(2)
        have "update_at cs f (snd kv) = Inr (snd kv)" by blast
        with b(1) True show ?thesis by simp
      next
        case False
        with b(1) show ?thesis by simp
      qed
    qed
    then have "map_result (\<lambda>kv. bind (evaluate s (snd kv)) (\<lambda>b.
            if b then bind (update_at cs f (snd kv)) (\<lambda>y. Inr (fst kv, y)) else Inr kv)) kvs
                 = Inr kvs"
      by (rule map_result_id)
    with JObj show ?thesis by simp
  qed simp_all
qed

section \<open>Order tables of pairwise distinct keys\<close>

lemma map_of_put: "map_of (put key index acc) = (map_of acc)(key \<mapsto> index)"
  by (induction acc) (auto simp: fun_eq_iff)

lemma map_of_assign:
  "map_of (assign key index acc) k =
     (if key = ''__proto__'' then map_of acc k else if k = key then Some index else map_of acc k)"
  by (simp add: assign_def map_of_put)

lemma reduce_order_lookup:
  assumes "map_result (\<lambda>node. sortKey node props) sel = Inr ks" and "distinct ks"
  shows "\<exists>T. reduce_order props sel n acc = Inr T
           \<and> (\<forall>i<length ks. ks ! i \<noteq> ''__proto__'' \<longrightarrow> map_of T (ks ! i) = Some (n + i))
           \<and> (\<forall>k. k \<notin> set ks \<or> k = ''__proto__'' \<longrightarrow> map_of T k = map_of acc k)"
  using assms
proof (induction sel arbitrary: ks n acc)
  case Nil
  then show ?case by simp
next
  case (Cons x sel)
  from Cons.prems(1) obtain k ks' where
    k: "sortKey x props = Inr k" "map_result (\<lambda>node. sortKey node props) sel = Inr ks'" "ks = k # ks'"
    by (auto simp: bind_eq_Inr)
  from Cons.prems(2) k(3) have d: "distinct ks'" "k \<notin> set ks'" by simp_all
  from Cons.IH [OF k(2) d(1), of "Suc n" "assign k n acc"] obtain T where
    T: "reduce_order props sel (Suc n) (assign k n acc) = Inr T"
       "\<forall>i<length ks'. ks' ! i \<noteq> ''__proto__'' \<longrightarrow> map_of T (ks' ! i) = Some (Suc n + i)"
       "\<forall>j. j \<notin> set ks' \<or> j = ''__proto__'' \<longrightarrow> map_of T j = map_of (assign k n acc) j"
    by blast
  have run: "reduce_order props (x # sel) n acc = Inr T"
    using k(1) T(1) by simp
  have look: "map_of T (ks ! i) = Some (n + i)" if "i < length ks" "ks ! i \<noteq> ''__proto__''" for i
  proof (cases i)
    case 0
    with that k(3) d(2) T(3) show ?thesis by (simp add: map_of_assign)
  next
    case (Suc j)
    with that k(3) T(2) show ?thesis by simp
  qed
  have frame: "map_of T j = map_of acc j" if "j \<notin> set ks \<or> j = ''__proto__''" for j
  proof -
    from that k(3) have "j \<notin> set ks' \<or> j = ''__proto__''" by auto
    with T(3) have "map_of T j = map_of (assign k n acc) j" by blast
    with that k(3) show ?thesis by (auto simp: map_of_assign)
  qed
  from run look frame show ?case by blast
qed

lemma reduce_order_position:
  assumes keys: "map_result (\<lambda>node. sortKey node props) sel = Inr ks" and d: "distinct ks"
    and own: "''__proto__'' \<notin> set ks"
  shows "\<exists>T. reduce_order props sel 0 [] = Inr T
           \<and> (\<forall>i<length ks. position_of T (ks ! i) = Index i)"
proof -
  from reduce_order_lookup [OF keys d, of 0 "[]"] obtain T where
    T: "reduce_order props sel 0 [] = Inr T"
       "\<forall>i<length ks. ks ! i \<noteq> ''__proto__'' \<longrightarrow> map_of T (ks ! i) = Some (0 + i)"
    by blast
  have "position_of T (ks ! i) = Index i" if "i < length ks" for i
  proof -
    from that own have "ks ! i \<noteq> ''__proto__''" by (metis nth_mem)
    with T(2) that have "map_of T (ks ! i) = Some i" by simp
    then show ?thesis
      by (simp add: position_of_def has_property_def)
  qed
  with T(1) show ?thesis by blast
qed

lemma array_sort_ordered:
  "(\<And>i. Suc i < length xs \<Longrightarrow> \<exists>c. cmp (xs ! i) (xs ! Suc i) = Inr c \<and> c \<le> 0)
     \<Longrightarrow> array_sort cmp xs = Inr xs"
proof (induction xs)
  case Nil
  show ?case by simp
next
  case (Cons x xs)
  have "array_sort cmp xs = Inr xs"
  proof (rule Cons.IH)
    fix i
    assume "Suc i < length xs"
    with Cons.prems [of "Suc i"] show "\<exists>c. cmp (xs ! i) (xs ! Suc i) = Inr c \<and> c \<le> 0"
      by simp
  qed
  moreover have "insert_sorted cmp x xs = Inr (x # xs)"
  proof (cases xs)
    case Nil
    then show ?thesis by simp
  next
    case (Cons y ys)
    with Cons.prems [of 0] show ?thesis by auto
  qed
  ultimately show ?case by simp
qed

lemma sort_block_unchanged:
  assumes keys: "map_result (\<lambda>node. sortKey node props) sel = Inr ks" and d: "distinct ks"
    and own: "''__proto__'' \<notin> set ks"
    and T: "reduce_order props sel 0 [] = Inr T"
    and block: "sel = pre @ xs @ post"
  shows "array_sort (\<lambda>a b. orderApply a b T props) xs = Inr xs"
proof (rule array_sort_ordered)
  fix i
  assume i: "Suc i < length xs"
  let ?a = "length pre + i"
  from keys have len: "length ks = length sel"
    and key: "\<And>j. j < length sel \<Longrightarrow> sortKey (sel ! j) props = Inr (ks ! j)"
    by (simp_all add: map_result_eq_Inr)
  from i block have a: "Suc ?a < length sel" by simp
  from i block have ea: "sel ! ?a = xs ! i"
    by (simp add: nth_append)
  from i block have eb: "sel ! Suc ?a = xs ! Suc i"
    by (simp add: nth_append Suc_diff_le)
  from reduce_order_position [OF keys d own] T have
    pos: "\<And>j. j < length ks \<Longrightarrow> position_of T (ks ! j) = Index j"
    by auto
  have pa: "position_of T (ks ! ?a) = Index ?a"
    using pos [of ?a] a len by simp
  have pb: "position_of T (ks ! Suc ?a) = Index (Suc ?a)"
    using pos [of "Suc ?a"] a len by simp
  have "orderApply (sel ! ?a) (sel ! Suc ?a) T props = Inr (- 1)"
    using key [of ?a] key [of "Suc ?a"] a by (simp add: orderApply_def Let_def pa pb)
  with ea eb show "\<exists>c. orderApply (xs ! i) (xs ! Suc i) T props = Inr c \<and> c \<le> 0"
    by simp
qed

lemma map_result_pure: "map_result (\<lambda>x. Inr (h x)) xs = Inr (map h xs)"
  by (induction xs) simp_all

lemma concat_singletons: "concat (map (\<lambda>x. [x]) xs) = xs"
  by (induction xs) simp_all

lemma select_Nil: "select [] = (\<lambda>v. Inr [v])"
  by (rule ext) simp

lemma select_wildcard: "select [ChildWildcard] v = Inr (children v)"
  by (simp add: select_Nil map_result_pure concat_singletons)

lemma select_filter: "select [ChildFilter s] v = filter_result (evaluate s) (children v)"
  by (cases "filter_result (evaluate s) (children v)")
     (simp_all add: select_Nil map_result_pure concat_singletons)

lemma own_property_first:
  "map_of kvs key = Some x \<Longrightarrow> \<exists>more. map snd (filter (\<lambda>kv. fst kv = key) kvs) = x # more"
  by (induction kvs) (auto split: if_splits)

lemma traverse_own_first:
  "map_of kvs key = Some x \<Longrightarrow> \<exists>more. traverse key (JObj kvs) = x # more"
  using own_property_first [of kvs key x] by auto

lemma map_result_block:
  "map_result g xs = Inr rs \<Longrightarrow> x \<in> set xs
     \<Longrightarrow> \<exists>r pre post. g x = Inr r \<and> concat rs = pre @ r @ post"
proof (induction xs arbitrary: rs)
  case Nil
  then show ?case by simp
next
  case (Cons a xs)
  from Cons.prems(1) obtain ra rs' where
    a: "g a = Inr ra" "map_result g xs = Inr rs'" "rs = ra # rs'"
    by (auto simp: bind_eq_Inr)
  show ?case
  proof (cases "x = a")
    case True
    with a have "g x = Inr ra \<and> concat rs = [] @ ra @ concat rs'" by simp
    then show ?thesis by blast
  next
    case False
    with Cons.prems(2) have "x \<in> set xs" by simp
    from Cons.IH [OF a(2) this] obtain r pre post where
      "g x = Inr r" "concat rs' = pre @ r @ post" by blast
    with a(3) have "g x = Inr r \<and> concat rs = (ra @ pre) @ r @ post" by simp
    then show ?thesis by blast
  qed
qed

lemma map_result_preimage:
  "map_result g xs = Inr rs \<Longrightarrow> r \<in> set rs \<Longrightarrow> \<exists>x\<in>set xs. g x = Inr r"
proof (induction xs arbitrary: rs)
  case Nil
  then show ?case by simp
next
  case (Cons a xs)
  then show ?case by (auto simp: bind_eq_Inr)
qed

lemma select_Cons_block:
  assumes "select (c # cs) v = Inr es" and "handler c v = Inr ps" and "p \<in> set ps"
  shows "\<exists>r pre post. select cs p = Inr r \<and> es = pre @ r @ post"
proof -
  from assms(1,2) obtain rs where rs: "map_result (select cs) ps = Inr rs" "es = concat rs"
    by (auto simp: bind_eq_Inr)
  from map_result_block [OF rs(1) assms(3)] rs(2) show ?thesis by auto
qed

section \<open>Properties of the Document Normalizer\<close>

lemma distinct_keys_selected:
  assumes "distinct_keys D path props"
  shows "\<exists>sel ks. query D path = Inr sel
           \<and> map_result (\<lambda>node. sortKey node props) sel = Inr ks
           \<and> distinct ks \<and> ''__proto__'' \<notin> set ks"
proof (cases "bind (query D path) (map_result (\<lambda>node. sortKey node props))")
  case (Inl e)
  with assms show ?thesis by (simp add: distinct_keys_def)
next
  case (Inr ks)
  with assms show ?thesis by (auto simp: distinct_keys_def bind_eq_Inr)
qed

lemma ordering_block_unchanged:
  assumes dk: "distinct_keys D path props" and q: "query D path = Inr (pre @ xs @ post)"
  shows "\<exists>T. ordering D path props = Inr T
           \<and> array_sort (\<lambda>a b. orderApply a b T props) xs = Inr xs"
proof -
  from distinct_keys_selected [OF dk] q obtain ks where
    ks: "map_result (\<lambda>node. sortKey node props) (pre @ xs @ post) = Inr ks" "distinct ks"
        "''__proto__'' \<notin> set ks"
    by auto
  from reduce_order_position [OF ks] obtain T where
    T: "reduce_order props (pre @ xs @ post) 0 [] = Inr T" by blast
  from sort_block_unchanged [OF ks T refl] T q show ?thesis
    by (simp add: ordering_def)
qed

lemma select_descendant_wildcard:
  "select [DescendantMember key, ChildWildcard] v = Inr (concat (map children (traverse key v)))"
proof -
  have "select [ChildWildcard] = (\<lambda>v. Inr (children v))"
    by (rule ext) (rule select_wildcard)
  then show ?thesis
    by (simp add: map_result_pure del: select.simps(2) add: select.simps(2) [of "DescendantMember key"])
qed

lemma get_property_object:
  "get_property e prop = Inr (Some x) \<Longrightarrow> \<exists>kvs. e = JObj kvs \<and> map_of kvs prop = Some x"
  by (cases e) (auto split: option.splits if_splits)

lemma sort_root_unchanged:
  assumes own: "map_of kvs prop = Some (JArr xs)"
    and dk: "distinct_keys (JObj kvs) [DescendantMember prop, ChildWildcard] props"
  shows "sort_js \<lparr>initial = JObj kvs, actual = JObj kvs\<rparr> [] prop
           (\<lambda>element. Inr [DescendantMember prop, ChildWildcard]) props
         = Inr \<lparr>initial = JObj kvs, actual = JObj kvs\<rparr>"
proof -
  let ?D = "JObj kvs"
  let ?path = "[DescendantMember prop, ChildWildcard]"
  from traverse_own_first [OF own] obtain more where "traverse prop ?D = JArr xs # more"
    by blast
  then have "query ?D ?path = Inr ([] @ xs @ concat (map children more))"
    unfolding query_def select_descendant_wildcard by simp
  from ordering_block_unchanged [OF dk this] obtain T where
    T: "ordering ?D ?path props = Inr T" "array_sort (\<lambda>a b. orderApply a b T props) xs = Inr xs"
    by blast
  have "sort_element prop ?D (\<lambda>element. Inr ?path) props ?D = Inr ?D"
    using T own by (simp add: sort_element_def replace_own_same)
  then show ?thesis
    by (simp add: sort_js_def)
qed

lemma selected_with_containers:
  assumes "select elements_with_containers_path D = Inr cs" and "e \<in> set cs"
  shows "\<exists>ev\<in>set (traverse ''elements'' D).
           e \<in> set (children ev) \<and> evaluate (Member ''containers'') e = Inr True"
proof -
  from assms(1) obtain rs where
    rs: "map_result (select [ChildFilter (Member ''containers'')]) (traverse ''elements'' D) = Inr rs"
        "cs = concat rs"
    by (auto simp: elements_with_containers_path_def bind_eq_Inr)
  from assms(2) rs(2) obtain r where r: "r \<in> set rs" "e \<in> set r" by auto
  from map_result_preimage [OF rs(1) r(1)] obtain ev where
    ev: "ev \<in> set (traverse ''elements'' D)" "select [ChildFilter (Member ''containers'')] ev = Inr r"
    by blast
  from ev(2) have "filter_result (evaluate (Member ''containers'')) (children ev) = Inr r"
    by (simp only: select_filter)
  from filter_result_passed [OF this r(2)] ev(1) show ?thesis by blast
qed

lemma containers_block:
  assumes sel: "select (containers_of_name_path lit) D = Inr sel"
    and ev: "ev \<in> set (traverse ''elements'' D)" "e \<in> set (children ev)"
    and pass: "evaluate (Member ''containers'') e = Inr True"
    and name: "evaluate (MemberEquals ''name'' lit) e = Inr True"
    and cont: "get_property e ''containers'' = Inr (Some (JArr xs))"
  shows "\<exists>pre post. sel = pre @ xs @ post"
proof -
  let ?F = "Conj (Member ''containers'') (MemberEquals ''name'' lit)"
  let ?rest = "[ChildFilter ?F, ChildMember ''containers'', ChildWildcard]"
  have h0: "handler (DescendantMember ''elements'') D = Inr (traverse ''elements'' D)"
    by simp
  from select_Cons_block [OF sel [unfolded containers_of_name_path_def] h0 ev(1)]
  obtain r1 pre0 post0 where r1: "select ?rest ev = Inr r1" "sel = pre0 @ r1 @ post0"
    by blast
  from r1(1) obtain ps where ps: "handler (ChildFilter ?F) ev = Inr ps"
    by (auto simp: bind_eq_Inr)
  have "evaluate ?F e = Inr True"
    using pass name by (simp del: evaluate.simps(1,2))
  with filter_result_member [of "evaluate ?F" "children ev" ps e] ps ev(2) have "e \<in> set ps"
    by auto
  from select_Cons_block [OF r1(1) ps this]
  obtain r2 pre1 post1 where
    r2: "select [ChildMember ''containers'', ChildWildcard] e = Inr r2" "r1 = pre1 @ r2 @ post1"
    by blast
  from get_property_object [OF cont] obtain kvs where
    kvs: "e = JObj kvs" "map_of kvs ''containers'' = Some (JArr xs)" by blast
  then have "select [ChildMember ''containers'', ChildWildcard] e = Inr xs"
    by (simp add: select_Nil map_result_pure concat_singletons)
  with r2 have "r2 = xs" by simp
  with r1(2) r2(2) have "sel = (pre0 @ pre1) @ xs @ (post1 @ post0)" by simp
  then show ?thesis by blast
qed

lemma sort_element_containers_unchanged:
  assumes sel: "select elements_with_containers_path D = Inr cs" and e: "e \<in> set cs"
    and obj: "typeof_object D"
    and lit: "name_literal e = Inr lit" and plain: "plain_literal lit"
    and name: "evaluate (MemberEquals ''name'' lit) e = Inr True"
    and cont: "get_property e ''containers'' = Inr (Some (JArr xs))"
    and dk: "distinct_keys D (containers_of_name_path lit) [''name'']"
  shows "sort_element ''containers'' D containers_path [''name''] e = Inr e"
proof -
  from selected_with_containers [OF sel e] obtain ev where
    ev: "ev \<in> set (traverse ''elements'' D)" "e \<in> set (children ev)"
        "evaluate (Member ''containers'') e = Inr True"
    by blast
  from distinct_keys_selected [OF dk] obtain sel' where
    q: "query D (containers_of_name_path lit) = Inr sel'" by blast
  with obj have "select (containers_of_name_path lit) D = Inr sel'"
    by (simp add: query_def)
  from containers_block [OF this ev name cont] obtain pre post where "sel' = pre @ xs @ post"
    by blast
  with q have "query D (containers_of_name_path lit) = Inr (pre @ xs @ post)" by simp
  from ordering_block_unchanged [OF dk this] obtain T where
    T: "ordering D (containers_of_name_path lit) [''name''] = Inr T"
       "array_sort (\<lambda>a b. orderApply a b T [''name'']) xs = Inr xs"
    by blast
  from get_property_object [OF cont] obtain kvs where
    kvs: "e = JObj kvs" "map_of kvs ''containers'' = Some (JArr xs)" by blast
  have "containers_path e = Inr (containers_of_name_path lit)"
    using lit plain by (simp add: containers_path_def)
  then show ?thesis
    using T cont kvs by (simp add: sort_element_def replace_own_same)
qed

text \<open>
  Claim C1, as the code has it. Let the document \<open>D\<close> be a mapping whose \<^verbatim>\<open>elements\<close> and
  \<^verbatim>\<open>relationships\<close> are sequences. Let the nodes that each pass selects from the reference
  have pairwise distinct keys, none of them \<^verbatim>\<open>__proto__\<close> (for the first two passes the
  children of every field named \<^verbatim>\<open>elements\<close>, respectively \<^verbatim>\<open>relationships\<close>, at any depth;
  for the third pass, per element, the containers of all elements that the path of this
  element selects). Let every element that owns containers have a sequence of containers
  and a name that the path built from it finds again: the text printed for the name
  contains no double quote, backslash, line break or \<^verbatim>\<open>)]\<close>, and the name is equal to
  that text by \<^verbatim>\<open>==\<close>. Then reconciling \<open>D\<close> against itself returns \<open>D\<close>: every collection
  keeps its order.
\<close>

theorem sortDiagram_self_unchanged:
  assumes root: "D = JObj kvs"
    and elements: "map_of kvs ''elements'' = Some (JArr es)"
    and relationships: "map_of kvs ''relationships'' = Some (JArr rs)"
    and element_keys: "distinct_keys D elements_path [''name'']"
    and relationship_keys: "distinct_keys D relationships_path [''source'', ''destination'']"
    and owners: "select elements_with_containers_path D = Inr cs"
    and container_keys: "\<forall>e\<in>set cs. \<exists>lit xs.
          name_literal e = Inr lit \<and> plain_literal lit
        \<and> evaluate (MemberEquals ''name'' lit) e = Inr True
        \<and> get_property e ''containers'' = Inr (Some (JArr xs))
        \<and> distinct_keys D (containers_of_name_path lit) [''name'']"
  shows "sortDiagram D D = Inr D"
proof -
  let ?docs = "\<lparr>initial = D, actual = D\<rparr>"
  have pass1: "sort_js ?docs [] ''elements'' (\<lambda>element. Inr elements_path) [''name''] = Inr ?docs"
    using sort_root_unchanged [OF elements] element_keys root
    by (simp add: elements_path_def)
  have pass2: "sort_js ?docs [] ''relationships'' (\<lambda>element. Inr relationships_path)
                 [''source'', ''destination''] = Inr ?docs"
    using sort_root_unchanged [OF relationships] relationship_keys root
    by (simp add: relationships_path_def)
  have obj: "typeof_object D" using root by simp
  have "update_at elements_with_containers_path
          (sort_element ''containers'' D containers_path [''name'']) D = Inr D"
    using owners
  proof (rule update_at_unchanged)
    fix e
    assume "e \<in> set cs"
    with container_keys sort_element_containers_unchanged [OF owners _ obj]
    show "sort_element ''containers'' D containers_path [''name''] e = Inr e"
      by blast
  qed
  then have pass3: "sort_js ?docs elements_with_containers_path ''containers'' containers_path
                      [''name''] = Inr ?docs"
    using obj by (simp add: sort_js_def)
  from pass1 pass2 pass3 show ?thesis
    by (simp add: sortDiagram_def sort_passes_def)
qed

lemmas eval_defs =
  sortDiagram_def sort_passes_def sort_js_def sort_element_def ordering_def query_def
  elements_path_def relationships_path_def elements_with_containers_path_def
  containers_path_def containers_of_name_path_def name_literal_def plain_literal_def
  assign_def orderApply_def sortKey_def join_def join_segment_def replace_def
  position_of_def has_property_def object_prototype_names_def caught_def

theorem sortDiagram_self_unchanged_witness:
  "sortDiagram
     (JObj [(''elements'',
             JArr [JObj [(''name'', JStr ''Shop''),
                         (''containers'', JArr [JObj [(''name'', JStr ''web'')],
                                                JObj [(''name'', JStr ''db'')]])],
                   JObj [(''name'', JStr ''User'')]]),
            (''relationships'',
             JArr [JObj [(''source'', JStr ''User''), (''destination'', JStr ''web'')],
                   JObj [(''source'', JStr ''web''), (''destination'', JStr ''db'')]])])
     (JObj [(''elements'',
             JArr [JObj [(''name'', JStr ''Shop''),
                         (''containers'', JArr [JObj [(''name'', JStr ''web'')],
                                                JObj [(''name'', JStr ''db'')]])],
                   JObj [(''name'', JStr ''User'')]]),
            (''relationships'',
             JArr [JObj [(''source'', JStr ''User''), (''destination'', JStr ''web'')],
                   JObj [(''source'', JStr ''web''), (''destination'', JStr ''db'')]])])
   = Inr (JObj [(''elements'',
             JArr [JObj [(''name'', JStr ''Shop''),
                         (''containers'', JArr [JObj [(''name'', JStr ''web'')],
                                                JObj [(''name'', JStr ''db'')]])],
                   JObj [(''name'', JStr ''User'')]]),
            (''relationships'',
             JArr [JObj [(''source'', JStr ''User''), (''destination'', JStr ''web'')],
                   JObj [(''source'', JStr ''web''), (''destination'', JStr ''db'')]])])"
proof -
  let ?shop = "JObj [(''name'', JStr ''Shop''),
                     (''containers'', JArr [JObj [(''name'', JStr ''web'')],
                                            JObj [(''name'', JStr ''db'')]])]"
  let ?es = "[?shop, JObj [(''name'', JStr ''User'')]]"
  let ?rs = "[JObj [(''source'', JStr ''User''), (''destination'', JStr ''web'')],
              JObj [(''source'', JStr ''web''), (''destination'', JStr ''db'')]]"
  let ?kvs = "[(''elements'', JArr ?es), (''relationships'', JArr ?rs)]"
  have e: "map_of ?kvs ''elements'' = Some (JArr ?es)" by simp
  have r: "map_of ?kvs ''relationships'' = Some (JArr ?rs)" by simp
  have k1: "distinct_keys (JObj ?kvs) elements_path [''name'']"
    by (simp add: distinct_keys_def eval_defs)
  have k2: "distinct_keys (JObj ?kvs) relationships_path [''source'', ''destination'']"
    by (simp add: distinct_keys_def eval_defs)
  have cs: "select elements_with_containers_path (JObj ?kvs) = Inr [?shop]"
    by (simp add: eval_defs)
  have k3: "\<forall>e\<in>set [?shop]. \<exists>lit xs.
          name_literal e = Inr lit \<and> plain_literal lit
        \<and> evaluate (MemberEquals ''name'' lit) e = Inr True
        \<and> get_property e ''containers'' = Inr (Some (JArr xs))
        \<and> distinct_keys (JObj ?kvs) (containers_of_name_path lit) [''name'']"
    by (simp add: distinct_keys_def eval_defs)
  from sortDiagram_self_unchanged [OF refl e r k1 k2 cs k3] show ?thesis .
qed

text \<open>
  Claim C1 as stated fails when two nodes of a collection share a key. In the document
  \<^verbatim>\<open>elements: [A, B, A]\<close> the table is \<^verbatim>\<open>{A: 2, B: 1}\<close> (the later index of \<open>A\<close>
  overwrites the earlier one), and reconciling the document against itself returns
  \<^verbatim>\<open>elements: [B, A, A]\<close>. It also fails, with pairwise distinct keys, for an element whose
  name the path of the third pass does not find again: in
  \<^verbatim>\<open>elements: [{containers: [b, a]}, {name: undefined, containers: [a, b]}]\<close> the first
  element has no name, the template prints \<^verbatim>\<open>undefined\<close>, the table is built from the
  second element, and the containers of the first come back as \<^verbatim>\<open>[a, b]\<close>.
\<close>

theorem sortDiagram_self_duplicate_key_counterexample:
  "sortDiagram
     (JObj [(''elements'', JArr [JObj [(''name'', JStr ''A'')], JObj [(''name'', JStr ''B'')],
                                 JObj [(''name'', JStr ''A'')]]),
            (''relationships'', JArr [])])
     (JObj [(''elements'', JArr [JObj [(''name'', JStr ''A'')], JObj [(''name'', JStr ''B'')],
                                 JObj [(''name'', JStr ''A'')]]),
            (''relationships'', JArr [])])
   = Inr (JObj [(''elements'', JArr [JObj [(''name'', JStr ''B'')], JObj [(''name'', JStr ''A'')],
                                     JObj [(''name'', JStr ''A'')]]),
                (''relationships'', JArr [])])
   \<and> sortDiagram
     (JObj [(''elements'',
             JArr [JObj [(''containers'', JArr [JObj [(''name'', JStr ''b'')],
                                                JObj [(''name'', JStr ''a'')]])],
                   JObj [(''name'', JStr ''undefined''),
                         (''containers'', JArr [JObj [(''name'', JStr ''a'')],
                                                JObj [(''name'', JStr ''b'')]])]]),
            (''relationships'', JArr [])])
     (JObj [(''elements'',
             JArr [JObj [(''containers'', JArr [JObj [(''name'', JStr ''b'')],
                                                JObj [(''name'', JStr ''a'')]])],
                   JObj [(''name'', JStr ''undefined''),
                         (''containers'', JArr [JObj [(''name'', JStr ''a'')],
                                                JObj [(''name'', JStr ''b'')]])]]),
            (''relationships'', JArr [])])
   = Inr (JObj [(''elements'',
             JArr [JObj [(''containers'', JArr [JObj [(''name'', JStr ''a'')],
                                                JObj [(''name'', JStr ''b'')]])],
                   JObj [(''name'', JStr ''undefined''),
                         (''containers'', JArr [JObj [(''name'', JStr ''a'')],
                                                JObj [(''name'', JStr ''b'')]])]]),
            (''relationships'', JArr [])])"
  by (simp add: eval_defs)

section \<open>The third pass and the elements without counterpart\<close>













section \<open>Properties of the reconciliation in the store\<close>

lemma fold_fresh:
  "fold (\<lambda>entry n. max (Suc (fst entry)) n) h n
     = max n (fold (\<lambda>entry n. max (Suc (fst entry)) n) h 0)"
proof (induction h arbitrary: n)
  case Nil
  then show ?case by simp
next
  case (Cons e h)
  show ?case
    using Cons.IH [of "max (Suc (fst e)) n"] Cons.IH [of "Suc (fst e)"] by simp
qed

lemma fresh_Nil [simp]: "fresh [] = 0"
  by (simp add: fresh_def)

lemma fresh_Cons: "fresh (e # h) = max (Suc (fst e)) (fresh h)"
  using fold_fresh [of h "Suc (fst e)"] by (simp add: fresh_def)

lemma fresh_put_cell [simp]: "fresh (put_cell a c h) = max (Suc a) (fresh h)"
  by (simp add: put_cell_def fresh_Cons)

lemma map_of_put_cell [simp]:
  "map_of (put_cell a c h) b = (if b = a then Some c else map_of h b)"
  by (simp add: put_cell_def)

lemma below_fresh: "map_of h a = Some c \<Longrightarrow> a < fresh h"
proof (induction h)
  case Nil
  then show ?case by simp
next
  case (Cons e h)
  then show ?case
    by (cases e) (auto simp: fresh_Cons split: if_splits)
qed

lemma fresh_unused: "map_of h (fresh h) = None"
  using below_fresh [of h "fresh h"] by (cases "map_of h (fresh h)") auto

lemma reduce_order_in_place_result:
  assumes "reduce_order_in_place props items index acc h = Inr h'"
    and "map_of h acc = Some (TableCell table)"
  shows "\<exists>table'. reduce_order props items index table = Inr table'
           \<and> map_of h' acc = Some (TableCell table')
           \<and> (\<forall>a. a \<noteq> acc \<longrightarrow> map_of h' a = map_of h a)
           \<and> fresh h' = fresh h"
  using assms
proof (induction items arbitrary: index h table)
  case Nil
  then show ?case by simp
next
  case (Cons item items)
  from Cons.prems obtain key where
    key: "sortKey item props = Inr key"
    and rest: "reduce_order_in_place props items (Suc index) acc
                 (put_cell acc (TableCell (assign key index table)) h) = Inr h'"
    by (auto simp: bind_eq_Inr)
  let ?h = "put_cell acc (TableCell (assign key index table)) h"
  have "map_of ?h acc = Some (TableCell (assign key index table))" by simp
  from Cons.IH [OF rest this] obtain table' where
    t: "reduce_order props items (Suc index) (assign key index table) = Inr table'"
       "map_of h' acc = Some (TableCell table')"
       "\<forall>a. a \<noteq> acc \<longrightarrow> map_of h' a = map_of ?h a"
       "fresh h' = fresh ?h"
    by blast
  from below_fresh [OF Cons.prems(2)] have "fresh ?h = fresh h" by simp
  with t key show ?case by simp
qed

lemma ordering_in_place_result:
  assumes "ordering_in_place n h item path props = Inr (order, h1)"
  shows "order = fresh h
       \<and> (\<exists>tree table. read n h item = Inr tree \<and> ordering tree path props = Inr table
             \<and> map_of h1 order = Some (TableCell table))
       \<and> (\<forall>a. a \<noteq> order \<longrightarrow> map_of h1 a = map_of h a)
       \<and> fresh h1 = Suc (fresh h)"
proof -
  let ?h = "put_cell (fresh h) (TableCell []) h"
  from assms obtain tree selected where
    tree: "read n h item = Inr tree" and selected: "query tree path = Inr selected"
    and reduce: "reduce_order_in_place props selected 0 (fresh h) ?h = Inr h1"
    and order: "order = fresh h"
    by (auto simp: ordering_in_place_def bind_eq_Inr)
  have "map_of ?h (fresh h) = Some (TableCell [])" by simp
  from reduce_order_in_place_result [OF reduce this] obtain table where
    t: "reduce_order props selected 0 [] = Inr table"
       "map_of h1 (fresh h) = Some (TableCell table)"
       "\<forall>a. a \<noteq> fresh h \<longrightarrow> map_of h1 a = map_of ?h a"
       "fresh h1 = fresh ?h"
    by blast
  from t(1) selected have "ordering tree path props = Inr table"
    by (simp add: ordering_def)
  with tree t order show ?thesis by simp
qed

lemma sort_property_in_place_result:
  assumes "sort_property_in_place n h element actualProperty order props = Inr h'"
  shows "\<exists>e kvs c items sorted.
           element = VRef e \<and> map_of h e = Some (ObjectCell kvs)
         \<and> map_of kvs actualProperty = Some (VRef c)
         \<and> map_of h c = Some (ArrayCell items)
         \<and> mset sorted = mset items
         \<and> h' = put_cell c (ArrayCell sorted) h"
  using assms
  by (auto simp: sort_property_in_place_def bind_eq_Inr
      split: stored.splits option.splits cell.splits dest: array_sort_mset)

lemma region_closed_items:
  assumes "region_closed h lo hi" and "lo \<le> a" and "a < hi" and "map_of h a = Some c"
    and "v \<in> set (cell_items c)"
  shows "inside lo hi v"
  using assms unfolding region_closed_def by blast

lemma children_refs_inside:
  assumes "region_closed h lo hi" and "inside lo hi v" and "x \<in> set (children_refs h v)"
  shows "inside lo hi x"
proof (cases v)
  case (VRef a)
  with assms(3) obtain c where c: "map_of h a = Some c" "x \<in> set (cell_items c)"
    by (cases "map_of h a") (auto simp: children_refs_def)
  from assms(2) VRef have "lo \<le> a" "a < hi" by simp_all
  with assms(1) c show ?thesis by (blast intro: region_closed_items)
qed (use assms(3) in \<open>simp_all add: children_refs_def\<close>)

lemma map_result_all:
  assumes "map_result f xs = Inr rs"
    and "\<And>x r. x \<in> set xs \<Longrightarrow> f x = Inr r \<Longrightarrow> \<forall>y\<in>set r. P y"
  shows "\<forall>y\<in>set (concat rs). P y"
proof -
  have "\<forall>y\<in>set r. P y" if "r \<in> set rs" for r
    using map_result_preimage [OF assms(1) that] assms(2) by blast
  then show ?thesis by auto
qed

lemma traverse_refs_inside:
  assumes "region_closed h lo hi"
  shows "inside lo hi v \<Longrightarrow> traverse_refs n h key v = Inr rs \<Longrightarrow> \<forall>r\<in>set rs. inside lo hi r"
proof (induction n arbitrary: v rs)
  case 0
  then show ?case by (auto split: stored.splits)
next
  case (Suc n)
  show ?case
  proof (cases v)
    case (VRef a)
    from Suc.prems(1) VRef have a: "lo \<le> a" "a < hi" by simp_all
    show ?thesis
    proof (cases "map_of h a")
      case None
      with Suc.prems(2) VRef show ?thesis by simp
    next
      case (Some c)
      have items: "inside lo hi x" if "x \<in> set (cell_items c)" for x
        using region_closed_items [OF assms a Some that] .
      show ?thesis
      proof (cases c)
        case (ArrayCell xs)
        with Suc.prems(2) VRef Some obtain found where
          found: "map_result (traverse_refs n h key) xs = Inr found" "rs = concat found"
          by (auto simp: bind_eq_Inr)
        from found(1) have "\<forall>y\<in>set (concat found). inside lo hi y"
        proof (rule map_result_all)
          fix x r
          assume "x \<in> set xs" "traverse_refs n h key x = Inr r"
          with items ArrayCell Suc.IH [of x r] show "\<forall>y\<in>set r. inside lo hi y" by simp
        qed
        with found(2) show ?thesis by simp
      next
        case (ObjectCell kvs)
        with Suc.prems(2) VRef Some obtain found where
          found: "map_result (traverse_refs n h key) (map snd kvs) = Inr found"
                 "rs = map snd (filter (\<lambda>kv. fst kv = key) kvs) @ concat found"
          by (auto simp: bind_eq_Inr)
        from found(1) have "\<forall>y\<in>set (concat found). inside lo hi y"
        proof (rule map_result_all)
          fix x r
          assume "x \<in> set (map snd kvs)" "traverse_refs n h key x = Inr r"
          with items ObjectCell Suc.IH [of x r] show "\<forall>y\<in>set r. inside lo hi y" by simp
        qed
        moreover have "\<forall>y\<in>set (map snd (filter (\<lambda>kv. fst kv = key) kvs)). inside lo hi y"
          using items ObjectCell by auto
        ultimately show ?thesis using found(2) by auto
      next
        case (TableCell table)
        with Suc.prems(2) VRef Some show ?thesis by simp
      qed
    qed
  qed (use Suc.prems(2) in simp_all)
qed

lemma handler_refs_inside:
  assumes "region_closed h lo hi" and "inside lo hi v" and "handler_refs n h c v = Inr rs"
  shows "\<forall>r\<in>set rs. inside lo hi r"
proof (cases c)
  case (DescendantMember key)
  with assms show ?thesis by (simp add: traverse_refs_inside)
next
  case (ChildMember key)
  show ?thesis
  proof (cases v)
    case (VRef a)
    with assms(3) ChildMember obtain kvs where kvs: "map_of h a = Some (ObjectCell kvs)"
      by (auto split: option.splits cell.splits)
    from assms(2) VRef have "lo \<le> a" "a < hi" by simp_all
    note items = region_closed_items [OF assms(1) this kvs]
    have "inside lo hi x" if "map_of kvs key = Some x" for x
    proof -
      from map_of_SomeD [OF that] have "x \<in> set (cell_items (ObjectCell kvs))" by force
      then show ?thesis by (rule items)
    qed
    then show ?thesis
      using assms(3) ChildMember VRef kvs by (auto split: option.splits if_splits)
  qed (use assms(3) ChildMember in simp_all)
next
  case ChildWildcard
  with assms show ?thesis by (auto intro: children_refs_inside)
next
  case (ChildFilter s)
  with assms(3) have "set rs \<subseteq> set (children_refs h v)"
    by (auto dest: filter_result_passed)
  with assms(1,2) show ?thesis by (auto intro: children_refs_inside)
qed

lemma select_refs_inside:
  assumes "region_closed h lo hi"
  shows "inside lo hi v \<Longrightarrow> select_refs n h path v = Inr rs \<Longrightarrow> \<forall>r\<in>set rs. inside lo hi r"
proof (induction path arbitrary: v rs)
  case Nil
  then show ?case by auto
next
  case (Cons c cs)
  from Cons.prems(2) obtain partials results where
    p: "handler_refs n h c v = Inr partials"
       "map_result (select_refs n h cs) partials = Inr results" "rs = concat results"
    by (auto simp: bind_eq_Inr)
  from handler_refs_inside [OF assms Cons.prems(1) p(1)]
  have partials: "\<forall>x\<in>set partials. inside lo hi x" .
  from p(2) have "\<forall>y\<in>set (concat results). inside lo hi y"
  proof (rule map_result_all)
    fix x r
    assume "x \<in> set partials" "select_refs n h cs x = Inr r"
    with partials Cons.IH [of x r] show "\<forall>y\<in>set r. inside lo hi y" by simp
  qed
  with p(3) show ?case by simp
qed

lemma sort_element_in_place_kept:
  assumes kept: "kept h0 lo hi h" and element: "inside lo hi element"
    and run: "sort_element_in_place n actualProperty reference initialJsonPath props h element
                = Inr h'"
  shows "kept h0 lo hi h'"
proof -
  from kept have closed: "region_closed h lo hi" and hi: "hi \<le> fresh h0"
    and grown: "fresh h0 \<le> fresh h"
    and outside: "\<And>a. a < fresh h0 \<Longrightarrow> \<not> (lo \<le> a \<and> a < hi) \<Longrightarrow> map_of h a = map_of h0 a"
    by (simp_all add: kept_def)
  from run obtain path built where
    built: "ordering_in_place n h reference path props = Inr built"
           "(case built of (order, h1) \<Rightarrow>
               sort_property_in_place n h1 element actualProperty order props) = Inr h'"
    unfolding sort_element_in_place_def bind_eq_Inr by blast
  obtain order h1 where "built = (order, h1)" by (cases built)
  with built have
    table: "ordering_in_place n h reference path props = Inr (order, h1)"
    and sorted: "sort_property_in_place n h1 element actualProperty order props = Inr h'"
    by simp_all
  from ordering_in_place_result [OF table] have
    same: "\<And>a. a \<noteq> fresh h \<Longrightarrow> map_of h1 a = map_of h a" and fresh1: "fresh h1 = Suc (fresh h)"
    by simp_all
  from sort_property_in_place_result [OF sorted] obtain e kvs c items sorted where
    parts: "element = VRef e" "map_of h1 e = Some (ObjectCell kvs)"
           "map_of kvs actualProperty = Some (VRef c)" "map_of h1 c = Some (ArrayCell items)"
           "mset sorted = mset items" "h' = put_cell c (ArrayCell sorted) h1"
    by blast
  from element parts(1) have e: "lo \<le> e" "e < hi" by simp_all
  with hi grown have "e \<noteq> fresh h" by simp
  with same parts(2) have cell_e: "map_of h e = Some (ObjectCell kvs)" by simp
  from map_of_SomeD [OF parts(3)] have "VRef c \<in> set (cell_items (ObjectCell kvs))" by force
  from region_closed_items [OF closed e cell_e this] have c: "lo \<le> c" "c < hi" by simp_all
  with hi grown have "c \<noteq> fresh h" by simp
  with same parts(4) have cell_c: "map_of h c = Some (ArrayCell items)" by simp
  from parts(5) have items: "set sorted = set items" by (rule mset_eq_setD)
  have "region_closed h' lo hi"
    unfolding region_closed_def
  proof (intro allI impI ballI)
    fix a cell v
    assume a: "lo \<le> a \<and> a < hi \<and> map_of h' a = Some cell" and v: "v \<in> set (cell_items cell)"
    show "inside lo hi v"
    proof (cases "a = c")
      case True
      with a parts(6) have "cell = ArrayCell sorted" by simp
      with v items have "v \<in> set (cell_items (ArrayCell items))" by simp
      from region_closed_items [OF closed c cell_c this] show ?thesis .
    next
      case False
      from a have bounds: "lo \<le> a" "a < hi" and cell': "map_of h' a = Some cell" by simp_all
      from bounds hi grown have "a \<noteq> fresh h" by simp
      with False cell' parts(6) same [of a] have "map_of h a = Some cell" by simp
      from region_closed_items [OF closed bounds this v] show ?thesis .
    qed
  qed
  moreover from parts(6) fresh1 grown have "fresh h0 \<le> fresh h'" by simp
  moreover have "map_of h' a = map_of h0 a" if "a < fresh h0" "\<not> (lo \<le> a \<and> a < hi)" for a
  proof -
    from that c have "a \<noteq> c" by auto
    moreover from that(1) grown have "a \<noteq> fresh h" by simp
    ultimately show ?thesis using parts(6) same outside [OF that] by simp
  qed
  ultimately show ?thesis using hi by (simp add: kept_def)
qed

lemma for_each_invariant:
  assumes "for_each f xs h = Inr h'" and "P h"
    and "\<And>h x h'. P h \<Longrightarrow> x \<in> set xs \<Longrightarrow> f h x = Inr h' \<Longrightarrow> P h'"
  shows "P h'"
  using assms
proof (induction xs arbitrary: h)
  case Nil
  then show ?case by simp
next
  case (Cons x xs)
  from Cons.prems(1) obtain h1 where h1: "f h x = Inr h1" "for_each f xs h1 = Inr h'"
    by (auto simp: bind_eq_Inr)
  have "P h1" by (rule Cons.prems(3) [OF Cons.prems(2) _ h1(1)]) simp
  show ?case
  proof (rule Cons.IH [OF h1(2) \<open>P h1\<close>])
    fix h x' h'
    assume "P h" "x' \<in> set xs" "f h x' = Inr h'"
    then show "P h'" by (intro Cons.prems(3) [of h x' h']) simp_all
  qed
qed

lemma sort_in_place_kept:
  assumes kept: "kept h0 lo hi h" and target: "inside lo hi target"
    and run: "sort_in_place n h target actualJsonPath actualProperty reference initialJsonPath
                props = Inr h'"
  shows "kept h0 lo hi h'"
proof -
  from run obtain elements where
    elements: "select_refs n h actualJsonPath target = Inr elements"
    and each: "for_each (sort_element_in_place n actualProperty reference initialJsonPath props)
                 elements h = Inr h'"
    by (auto simp: sort_in_place_def query_refs_def bind_eq_Inr split: if_splits)
  from kept have "region_closed h lo hi" by (simp add: kept_def)
  from select_refs_inside [OF this target elements]
  have inside: "\<forall>element\<in>set elements. inside lo hi element" .
  from each kept show ?thesis
  proof (rule for_each_invariant)
    fix h x h'
    assume k: "kept h0 lo hi h" and x: "x \<in> set elements"
      and step: "sort_element_in_place n actualProperty reference initialJsonPath props h x
                   = Inr h'"
    from inside x have "inside lo hi x" by simp
    with k show "kept h0 lo hi h'" using step by (rule sort_element_in_place_kept)
  qed
qed

lemma sort_passes_in_place_kept:
  assumes "kept h0 lo hi h" and "inside lo hi target"
    and "sort_passes_in_place n h reference target = Inr h'"
  shows "kept h0 lo hi h'"
proof -
  from assms(3) obtain h1 h2 where
    pass1: "sort_in_place n h target [] ''elements'' reference (\<lambda>element. Inr elements_path)
              [''name''] = Inr h1"
    and pass2: "sort_in_place n h1 target [] ''relationships'' reference
              (\<lambda>element. Inr relationships_path) [''source'', ''destination''] = Inr h2"
    and pass3: "sort_in_place n h2 target elements_with_containers_path ''containers'' reference
              containers_path [''name''] = Inr h'"
    unfolding sort_passes_in_place_def bind_eq_Inr by blast
  from sort_in_place_kept [OF assms(1,2) pass1] have "kept h0 lo hi h1" .
  from sort_in_place_kept [OF this assms(2) pass2] have "kept h0 lo hi h2" .
  from sort_in_place_kept [OF this assms(2) pass3] show ?thesis .
qed

lemma inside_wider: "inside lo hi v \<Longrightarrow> lo' \<le> lo \<Longrightarrow> hi \<le> hi' \<Longrightarrow> inside lo' hi' v"
  by (cases v) simp_all

lemma loaded_same: "\<forall>v\<in>set vs. \<not> is_ref v \<Longrightarrow> loaded h h vs"
proof -
  assume "\<forall>v\<in>set vs. \<not> is_ref v"
  then have "inside (fresh h) (fresh h) v" if "v \<in> set vs" for v
    using that by (cases v) auto
  then show ?thesis by (auto simp: loaded_def region_closed_def)
qed

lemma loaded_append:
  assumes one: "loaded h h1 vs1" and two: "loaded h1 h2 vs2"
  shows "loaded h h2 (vs1 @ vs2)"
proof -
  from one have f1: "fresh h \<le> fresh h1"
    and old1: "\<And>a. a < fresh h \<Longrightarrow> map_of h1 a = map_of h a"
    and in1: "\<And>v. v \<in> set vs1 \<Longrightarrow> inside (fresh h) (fresh h1) v"
    and closed1: "region_closed h1 (fresh h) (fresh h1)"
    by (simp_all add: loaded_def)
  from two have f2: "fresh h1 \<le> fresh h2"
    and old2: "\<And>a. a < fresh h1 \<Longrightarrow> map_of h2 a = map_of h1 a"
    and in2: "\<And>v. v \<in> set vs2 \<Longrightarrow> inside (fresh h1) (fresh h2) v"
    and closed2: "region_closed h2 (fresh h1) (fresh h2)"
    by (simp_all add: loaded_def)
  have "map_of h2 a = map_of h a" if "a < fresh h" for a
    using that f1 old1 [of a] old2 [of a] by simp
  moreover have "inside (fresh h) (fresh h2) v" if "v \<in> set (vs1 @ vs2)" for v
  proof (cases "v \<in> set vs1")
    case True
    from inside_wider [OF in1 [OF this] order_refl f2] show ?thesis .
  next
    case False
    with that have "v \<in> set vs2" by simp
    from inside_wider [OF in2 [OF this] f1 order_refl] show ?thesis .
  qed
  moreover have "region_closed h2 (fresh h) (fresh h2)"
    unfolding region_closed_def
  proof (intro allI impI ballI)
    fix a c v
    assume a: "fresh h \<le> a \<and> a < fresh h2 \<and> map_of h2 a = Some c"
      and v: "v \<in> set (cell_items c)"
    show "inside (fresh h) (fresh h2) v"
    proof (cases "a < fresh h1")
      case True
      with a old2 [of a] have "map_of h1 a = Some c" by simp
      from a have "fresh h \<le> a" by simp
      from region_closed_items [OF closed1 this True \<open>map_of h1 a = Some c\<close> v]
      have "inside (fresh h) (fresh h1) v" .
      from inside_wider [OF this order_refl f2] show ?thesis .
    next
      case False
      with a have "fresh h1 \<le> a" "a < fresh h2" "map_of h2 a = Some c" by simp_all
      from region_closed_items [OF closed2 this v]
      have "inside (fresh h1) (fresh h2) v" .
      from inside_wider [OF this f1 order_refl] show ?thesis .
    qed
  qed
  ultimately show ?thesis using f1 f2 by (simp add: loaded_def)
qed

lemma loaded_put_cell:
  assumes items: "loaded h h' vs" and c: "set (cell_items c) \<subseteq> set vs"
  shows "loaded h (put_cell (fresh h') c h') [VRef (fresh h')]"
proof -
  from items have f: "fresh h \<le> fresh h'"
    and old: "\<And>a. a < fresh h \<Longrightarrow> map_of h' a = map_of h a"
    and inside: "\<And>v. v \<in> set vs \<Longrightarrow> inside (fresh h) (fresh h') v"
    and closed: "region_closed h' (fresh h) (fresh h')"
    by (simp_all add: loaded_def)
  have "region_closed (put_cell (fresh h') c h') (fresh h) (Suc (fresh h'))"
    unfolding region_closed_def
  proof (intro allI impI ballI)
    fix a c' v
    assume a: "fresh h \<le> a \<and> a < Suc (fresh h')
                \<and> map_of (put_cell (fresh h') c h') a = Some c'"
      and v: "v \<in> set (cell_items c')"
    show "inside (fresh h) (Suc (fresh h')) v"
    proof (cases "a = fresh h'")
      case True
      with a have "c' = c" by simp
      with v c have "v \<in> set vs" by auto
      from inside [OF this] show ?thesis by (rule inside_wider) simp_all
    next
      case False
      with a have "fresh h \<le> a" "a < fresh h'" "map_of h' a = Some c'" by simp_all
      from region_closed_items [OF closed this v] show ?thesis by (rule inside_wider) simp_all
    qed
  qed
  moreover have "map_of (put_cell (fresh h') c h') a = map_of h a" if "a < fresh h" for a
    using that f old [of a] by simp
  ultimately show ?thesis using f by (simp add: loaded_def max_def)
qed

lemma load_loaded:
  "load t h = (v, h') \<Longrightarrow> loaded h h' [v]"
  "load_items xs h = (vs, h') \<Longrightarrow> loaded h h' vs"
  "load_fields kvs h = (fs, h') \<Longrightarrow> loaded h h' (map snd fs)"
proof (induction t h and xs h and kvs h arbitrary: v h' and vs h' and fs h'
    rule: load_load_items_load_fields.induct)
  case (5 xs h)
  from "5.prems" obtain vs h1 where
    items: "load_items xs h = (vs, h1)" and v: "v = VRef (fresh h1)"
    and h': "h' = put_cell (fresh h1) (ArrayCell vs) h1"
    by (auto split: prod.splits)
  from "5.IH" [OF items] have "loaded h h1 vs" .
  then have "loaded h (put_cell (fresh h1) (ArrayCell vs) h1) [VRef (fresh h1)]"
    by (rule loaded_put_cell) simp
  with v h' show ?case by simp
next
  case (6 kvs h)
  from "6.prems" obtain fs h1 where
    fields: "load_fields kvs h = (fs, h1)" and v: "v = VRef (fresh h1)"
    and h': "h' = put_cell (fresh h1) (ObjectCell fs) h1"
    by (auto split: prod.splits)
  from "6.IH" [OF fields] have "loaded h h1 (map snd fs)" .
  then have "loaded h (put_cell (fresh h1) (ObjectCell fs) h1) [VRef (fresh h1)]"
    by (rule loaded_put_cell) simp
  with v h' show ?case by simp
next
  case (8 x xs h)
  from "8.prems" obtain v h1 vs' where
    first: "load x h = (v, h1)" and rest: "load_items xs h1 = (vs', h')" and vs: "vs = v # vs'"
    by (auto split: prod.splits)
  from "8.IH"(1) [OF first] have "loaded h h1 [v]" .
  moreover from "8.IH"(2) [OF first [symmetric] rest] have "loaded h1 h' vs'" .
  ultimately have "loaded h h' ([v] @ vs')" by (rule loaded_append)
  with vs show ?case by simp
next
  case (10 k x kvs h)
  from "10.prems" obtain v h1 fs' where
    first: "load x h = (v, h1)" and rest: "load_fields kvs h1 = (fs', h')"
    and fs: "fs = (k, v) # fs'"
    by (auto split: prod.splits)
  from "10.IH"(1) [OF first] have "loaded h h1 [v]" .
  moreover from "10.IH"(2) [OF first [symmetric] rest] have "loaded h1 h' (map snd fs')" .
  ultimately have "loaded h h' ([v] @ map snd fs')" by (rule loaded_append)
  with fs show ?case by simp
qed (auto intro: loaded_same)

lemma tree_at_agree:
  assumes closed: "region_closed h lo hi"
    and same: "\<And>a. lo \<le> a \<Longrightarrow> a < hi \<Longrightarrow> map_of h' a = map_of h a"
  shows "inside lo hi v \<Longrightarrow> tree_at n h' v = tree_at n h v"
proof (induction n arbitrary: v)
  case 0
  then show ?case by (cases v) simp_all
next
  case (Suc n)
  show ?case
  proof (cases v)
    case (VRef a)
    with Suc.prems have a: "lo \<le> a" "a < hi" by simp_all
    from same [OF a] have cell: "map_of h' a = map_of h a" .
    show ?thesis
    proof (cases "map_of h a")
      case None
      with cell VRef show ?thesis by simp
    next
      case (Some c)
      have items: "tree_at n h' x = tree_at n h x" if "x \<in> set (cell_items c)" for x
        using region_closed_items [OF closed a Some that] by (rule Suc.IH)
      show ?thesis
      proof (cases c)
        case (ArrayCell xs)
        with items have "map (tree_at n h') xs = map (tree_at n h) xs" by simp
        then have "those (map (tree_at n h') xs) = those (map (tree_at n h) xs)"
          by (rule arg_cong)
        with cell VRef Some ArrayCell show ?thesis by simp
      next
        case (ObjectCell kvs)
        with items have
          "map (\<lambda>kv. map_option (Pair (fst kv)) (tree_at n h' (snd kv))) kvs
             = map (\<lambda>kv. map_option (Pair (fst kv)) (tree_at n h (snd kv))) kvs"
          by simp
        then have
          "those (map (\<lambda>kv. map_option (Pair (fst kv)) (tree_at n h' (snd kv))) kvs)
             = those (map (\<lambda>kv. map_option (Pair (fst kv)) (tree_at n h (snd kv))) kvs)"
          by (rule arg_cong)
        with cell VRef Some ObjectCell show ?thesis by simp
      next
        case (TableCell table)
        with cell VRef Some show ?thesis by simp
      qed
    qed
  qed simp_all
qed

lemma those_map_Some [simp]: "those (map Some xs) = Some xs"
  by (induction xs) simp_all

lemma tree_at_loaded:
  assumes one: "loaded h h1 vs" and two: "loaded h1 h2 ws" and v: "v \<in> set vs"
  shows "tree_at n h2 v = tree_at n h1 v"
proof -
  from one v have closed: "region_closed h1 (fresh h) (fresh h1)"
    and inside: "inside (fresh h) (fresh h1) v"
    by (simp_all add: loaded_def)
  from two have "map_of h2 a = map_of h1 a" if "a < fresh h1" for a
    using that by (simp add: loaded_def)
  with closed show ?thesis using inside by (rule tree_at_agree)
qed

lemma tree_at_put_cell:
  assumes "loaded h h1 vs" and "v \<in> set vs"
  shows "tree_at n (put_cell (fresh h1) c h1) v = tree_at n h1 v"
proof -
  from assms have closed: "region_closed h1 (fresh h) (fresh h1)"
    and inside: "inside (fresh h) (fresh h1) v"
    by (simp_all add: loaded_def)
  have "map_of (put_cell (fresh h1) c h1) a = map_of h1 a" if "a < fresh h1" for a
    using that by simp
  with closed show ?thesis using inside by (rule tree_at_agree)
qed

lemma load_tree_at:
  "load t h = (v, h') \<Longrightarrow> nodes t \<le> n \<Longrightarrow> tree_at n h' v = Some t"
  "load_items xs h = (vs, h') \<Longrightarrow> sum_list (map nodes xs) \<le> n
     \<Longrightarrow> map (tree_at n h') vs = map Some xs"
  "load_fields kvs h = (fs, h') \<Longrightarrow> sum_list (map (\<lambda>kv. nodes (snd kv)) kvs) \<le> n
     \<Longrightarrow> map (\<lambda>kv. map_option (Pair (fst kv)) (tree_at n h' (snd kv))) fs = map Some kvs"
proof (induction t h and xs h and kvs h arbitrary: v h' n and vs h' n and fs h' n
    rule: load_load_items_load_fields.induct)
  case (5 xs h)
  from "5.prems"(1) obtain vs h1 where
    items: "load_items xs h = (vs, h1)" and v: "v = VRef (fresh h1)"
    and h': "h' = put_cell (fresh h1) (ArrayCell vs) h1"
    by (auto split: prod.splits)
  from "5.prems"(2) obtain m where n: "n = Suc m" "sum_list (map nodes xs) \<le> m"
    by (cases n) simp_all
  from load_loaded(2) [OF items] have "tree_at m h' x = tree_at m h1 x" if "x \<in> set vs" for x
    unfolding h' using that by (rule tree_at_put_cell)
  then have "map (tree_at m h') vs = map (tree_at m h1) vs" by simp
  also from "5.IH" [OF items n(2)] have "\<dots> = map Some xs" .
  finally show ?case using v h' n(1) by simp
next
  case (6 kvs h)
  from "6.prems"(1) obtain fs h1 where
    fields: "load_fields kvs h = (fs, h1)" and v: "v = VRef (fresh h1)"
    and h': "h' = put_cell (fresh h1) (ObjectCell fs) h1"
    by (auto split: prod.splits)
  from "6.prems"(2) obtain m where
    n: "n = Suc m" "sum_list (map (\<lambda>kv. nodes (snd kv)) kvs) \<le> m"
    by (cases n) simp_all
  from load_loaded(3) [OF fields] have "tree_at m h' x = tree_at m h1 x" if "x \<in> set (map snd fs)" for x
    unfolding h' using that by (rule tree_at_put_cell)
  then have "map (\<lambda>kv. map_option (Pair (fst kv)) (tree_at m h' (snd kv))) fs
               = map (\<lambda>kv. map_option (Pair (fst kv)) (tree_at m h1 (snd kv))) fs"
    by simp
  also from "6.IH" [OF fields n(2)] have "\<dots> = map Some kvs" .
  finally show ?case using v h' n(1) by simp
next
  case (8 x xs h)
  from "8.prems"(1) obtain v h1 vs' where
    first: "load x h = (v, h1)" and rest: "load_items xs h1 = (vs', h')" and vs: "vs = v # vs'"
    by (auto split: prod.splits)
  from "8.prems"(2) have n: "nodes x \<le> n" "sum_list (map nodes xs) \<le> n" by simp_all
  from load_loaded(1) [OF first] load_loaded(2) [OF rest]
  have "tree_at n h' v = tree_at n h1 v" by (rule tree_at_loaded) simp
  with "8.IH"(1) [OF first n(1)] "8.IH"(2) [OF first [symmetric] rest n(2)] vs
  show ?case by simp
next
  case (10 k x kvs h)
  from "10.prems"(1) obtain v h1 fs' where
    first: "load x h = (v, h1)" and rest: "load_fields kvs h1 = (fs', h')"
    and fs: "fs = (k, v) # fs'"
    by (auto split: prod.splits)
  from "10.prems"(2) have n: "nodes x \<le> n" "sum_list (map (\<lambda>kv. nodes (snd kv)) kvs) \<le> n"
    by simp_all
  from load_loaded(1) [OF first] load_loaded(3) [OF rest]
  have "tree_at n h' v = tree_at n h1 v" by (rule tree_at_loaded) simp
  with "10.IH"(1) [OF first n(1)] "10.IH"(2) [OF first [symmetric] rest n(2)] fs
  show ?case by simp
qed auto

lemma table_kept:
  assumes table: "ordering_in_place n h reference path props = Inr (order, h1)"
    and sorted: "sort_property_in_place n h1 element actualProperty order props = Inr h2"
  shows "\<exists>tree table. read n h reference = Inr tree \<and> ordering tree path props = Inr table
           \<and> map_of h1 order = Some (TableCell table) \<and> map_of h2 order = Some (TableCell table)"
proof -
  from ordering_in_place_result [OF table] obtain tree table where
    t: "read n h reference = Inr tree" "ordering tree path props = Inr table"
       "map_of h1 order = Some (TableCell table)"
    by blast
  from sort_property_in_place_result [OF sorted] obtain c items sorted where
    c: "map_of h1 c = Some (ArrayCell items)" "h2 = put_cell c (ArrayCell sorted) h1"
    by blast
  from c(1) t(3) have "c \<noteq> order" by auto
  with c(2) t show ?thesis by simp
qed

text \<open>
  Claim C9, as the code has it. Let the two documents be loaded into the store, the
  reference first, and let the three passes return. Then every object of the reference
  holds what it held on entry; the tree read from the reference is, however deep it is
  read, the tree that was read on entry, and it is the reference document. Whenever a table
  is built for an element and the collection of the element is then sorted, the table is
  the one that \<open>ordering\<close> gives for the reference as the store holds it, and it is still
  that table after the sort.
\<close>

theorem sort_passes_in_place_keep_reference:
  assumes reference: "load initialDiagram [] = (reference, h1)"
    and target: "load actualDiagram h1 = (target, h2)"
    and run: "sort_passes_in_place n h2 reference target = Inr h3"
  shows "(\<forall>a. a < fresh h1 \<longrightarrow> map_of h3 a = map_of h1 a)
       \<and> (\<forall>m. tree_at m h3 reference = tree_at m h1 reference)
       \<and> (\<forall>m. nodes initialDiagram \<le> m \<longrightarrow> read m h3 reference = Inr initialDiagram)
       \<and> (\<forall>h path props order h' element actualProperty h''.
             ordering_in_place n h reference path props = Inr (order, h')
           \<and> sort_property_in_place n h' element actualProperty order props = Inr h''
           \<longrightarrow> (\<exists>tree table. read n h reference = Inr tree
                  \<and> ordering tree path props = Inr table
                  \<and> map_of h' order = Some (TableCell table)
                  \<and> map_of h'' order = Some (TableCell table)))"
proof -
  from load_loaded(1) [OF reference] have one: "loaded [] h1 [reference]" .
  from load_loaded(1) [OF target] have two: "loaded h1 h2 [target]" .
  from two have "kept h2 (fresh h1) (fresh h2) h2" "inside (fresh h1) (fresh h2) target"
    by (simp_all add: kept_def loaded_def)
  from sort_passes_in_place_kept [OF this run] have kept: "kept h2 (fresh h1) (fresh h2) h3" .
  have cells: "map_of h3 a = map_of h1 a" if "a < fresh h1" for a
  proof -
    from two have "fresh h1 \<le> fresh h2" "map_of h2 a = map_of h1 a"
      using that by (simp_all add: loaded_def)
    moreover from this(1) that kept have "map_of h3 a = map_of h2 a"
      by (simp add: kept_def)
    ultimately show ?thesis by simp
  qed
  from one have closed: "region_closed h1 0 (fresh h1)" "inside 0 (fresh h1) reference"
    by (simp_all add: loaded_def)
  have trees: "tree_at m h3 reference = tree_at m h1 reference" for m
    using closed(1) cells closed(2) by (rule tree_at_agree)
  have "read m h3 reference = Inr initialDiagram" if "nodes initialDiagram \<le> m" for m
    using load_tree_at(1) [OF reference that] trees [of m] by (simp add: read_def)
  with cells trees table_kept show ?thesis by blast
qed

lemmas store_defs =
  sort_passes_in_place_def sort_in_place_def query_refs_def sort_element_in_place_def
  ordering_in_place_def sort_property_in_place_def orderApply_in_place_def read_def
  children_refs_def put_cell_def fresh_Cons eval_nat_numeral

theorem sort_passes_in_place_keep_reference_witness:
  "\<exists>h1 h2 h3.
      load (JObj [(''elements'', JArr [JObj [(''name'', JStr ''A'')], JObj [(''name'', JStr ''B'')]]),
                  (''relationships'', JArr [])]) [] = (VRef 4, h1)
    \<and> load (JObj [(''elements'', JArr [JObj [(''name'', JStr ''B'')], JObj [(''name'', JStr ''A'')]]),
                  (''relationships'', JArr [])]) h1 = (VRef 9, h2)
    \<and> sort_passes_in_place 3 h2 (VRef 4) (VRef 9) = Inr h3
    \<and> map_of h3 2 = Some (ArrayCell [VRef 0, VRef 1])
    \<and> map_of h3 7 = Some (ArrayCell [VRef 6, VRef 5])
    \<and> read 7 h3 (VRef 4)
        = Inr (JObj [(''elements'', JArr [JObj [(''name'', JStr ''A'')], JObj [(''name'', JStr ''B'')]]),
                     (''relationships'', JArr [])])
    \<and> read 7 h3 (VRef 9)
        = Inr (JObj [(''elements'', JArr [JObj [(''name'', JStr ''A'')], JObj [(''name'', JStr ''B'')]]),
                     (''relationships'', JArr [])])"
proof -
  let ?R = "JObj [(''elements'', JArr [JObj [(''name'', JStr ''A'')], JObj [(''name'', JStr ''B'')]]),
                  (''relationships'', JArr [])]"
  let ?T = "JObj [(''elements'', JArr [JObj [(''name'', JStr ''B'')], JObj [(''name'', JStr ''A'')]]),
                  (''relationships'', JArr [])]"
  let ?h1 = "[(4, ObjectCell [(''elements'', VRef 2), (''relationships'', VRef 3)]),
              (3, ArrayCell []), (2, ArrayCell [VRef 0, VRef 1]),
              (1, ObjectCell [(''name'', VStr ''B'')]),
              (0, ObjectCell [(''name'', VStr ''A'')])]"
  let ?h2 = "[(9, ObjectCell [(''elements'', VRef 7), (''relationships'', VRef 8)]),
              (8, ArrayCell []), (7, ArrayCell [VRef 5, VRef 6]),
              (6, ObjectCell [(''name'', VStr ''A'')]),
              (5, ObjectCell [(''name'', VStr ''B'')])] @ ?h1"
  let ?h3 = "[(8, ArrayCell []), (11, TableCell []),
              (7, ArrayCell [VRef 6, VRef 5]),
              (10, TableCell [(''A'', 0), (''B'', 1)]),
              (10, TableCell [(''A'', 0)]), (10, TableCell [])] @ ?h2"
  have one: "load ?R [] = (VRef 4, ?h1)"
    by (simp add: store_defs)
  have two: "load ?T ?h1 = (VRef 9, ?h2)"
    by (simp add: store_defs)
  have run: "sort_passes_in_place 3 ?h2 (VRef 4) (VRef 9) = Inr ?h3"
    by (simp add: store_defs eval_defs)
  note kept = sort_passes_in_place_keep_reference [OF one two run]
  from kept [THEN conjunct1, THEN spec [of _ "2::nat"]]
  have cell: "map_of ?h3 (2::nat) = Some (ArrayCell [VRef 0, VRef 1])"
    by (simp add: fresh_Cons)
  from kept [THEN conjunct2, THEN conjunct2, THEN conjunct1, THEN spec [of _ "7::nat"]]
  have reference: "read 7 ?h3 (VRef 4) = Inr ?R"
    by simp
  have sorted: "map_of ?h3 (7::nat) = Some (ArrayCell [VRef 6, VRef 5])"
    by simp
  have target: "read 7 ?h3 (VRef 9) = Inr ?R"
    by (simp add: store_defs)
  show ?thesis
    by (rule exI [of _ ?h1], rule exI [of _ ?h2], rule exI [of _ ?h3])
      (intro conjI one two run cell reference sorted target)
qed

text \<open>
  The statement depends on the two loads. When the reference and the target are one and
  the same object, the passes change the reference: in \<^verbatim>\<open>elements: [A, B, A]\<close> the array of
  the elements is reordered to \<^verbatim>\<open>[B, A, A]\<close>.
\<close>

lemma sort_passes_in_place_shared_root:
  "\<exists>h h'.
      load (JObj [(''elements'', JArr [JObj [(''name'', JStr ''A'')], JObj [(''name'', JStr ''B'')],
                                        JObj [(''name'', JStr ''A'')]]),
                  (''relationships'', JArr [])]) [] = (VRef 5, h)
    \<and> sort_passes_in_place 3 h (VRef 5) (VRef 5) = Inr h'
    \<and> map_of h 3 = Some (ArrayCell [VRef 0, VRef 1, VRef 2])
    \<and> map_of h' 3 = Some (ArrayCell [VRef 1, VRef 0, VRef 2])
    \<and> read 7 h' (VRef 5)
        = Inr (JObj [(''elements'', JArr [JObj [(''name'', JStr ''B'')], JObj [(''name'', JStr ''A'')],
                                           JObj [(''name'', JStr ''A'')]]),
                     (''relationships'', JArr [])])"
  by (simp add: store_defs eval_defs)

text \<open>
  \<open>sortDiagram_in_place\<close> is the two loads followed by the passes; on the documents below it
  returns what \<open>sortDiagram\<close> returns on the trees.
\<close>

lemma sortDiagram_in_place_loaded:
  assumes "load initialDiagram [] = (reference, h1)" and "load actualDiagram h1 = (target, h2)"
  shows "sortDiagram_in_place n initialDiagram actualDiagram
           = bind (sort_passes_in_place n h2 reference target) (\<lambda>h3. read n h3 target)"
  using assms by (simp add: sortDiagram_in_place_def)

lemma sortDiagram_in_place_example:
  "sortDiagram_in_place 5
     (JObj [(''elements'',
             JArr [JObj [(''name'', JStr ''Shop''),
                         (''containers'', JArr [JObj [(''name'', JStr ''db'')],
                                                JObj [(''name'', JStr ''web'')]])]]),
            (''relationships'', JArr [])])
     (JObj [(''elements'',
             JArr [JObj [(''name'', JStr ''Bank''),
                         (''containers'', JArr [JObj [(''name'', JStr ''web'')],
                                                JObj [(''name'', JStr ''db'')]])],
                   JObj [(''name'', JStr ''Shop''),
                         (''containers'', JArr [JObj [(''name'', JStr ''web'')],
                                                JObj [(''name'', JStr ''db'')]])]]),
            (''relationships'', JArr [])])
   = Inr (JObj [(''elements'',
             JArr [JObj [(''name'', JStr ''Shop''),
                         (''containers'', JArr [JObj [(''name'', JStr ''db'')],
                                                JObj [(''name'', JStr ''web'')]])],
                   JObj [(''name'', JStr ''Bank''),
                         (''containers'', JArr [JObj [(''name'', JStr ''web'')],
                                                JObj [(''name'', JStr ''db'')]])]]),
            (''relationships'', JArr [])])
   \<and> sortDiagram
     (JObj [(''elements'',
             JArr [JObj [(''name'', JStr ''Shop''),
                         (''containers'', JArr [JObj [(''name'', JStr ''db'')],
                                                JObj [(''name'', JStr ''web'')]])]]),
            (''relationships'', JArr [])])
     (JObj [(''elements'',
             JArr [JObj [(''name'', JStr ''Bank''),
                         (''containers'', JArr [JObj [(''name'', JStr ''web'')],
                                                JObj [(''name'', JStr ''db'')]])],
                   JObj [(''name'', JStr ''Shop''),
                         (''containers'', JArr [JObj [(''name'', JStr ''web'')],
                                                JObj [(''name'', JStr ''db'')]])]]),
            (''relationships'', JArr [])])
   = Inr (JObj [(''elements'',
             JArr [JObj [(''name'', JStr ''Shop''),
                         (''containers'', JArr [JObj [(''name'', JStr ''db'')],
                                                JObj [(''name'', JStr ''web'')]])],
                   JObj [(''name'', JStr ''Bank''),
                         (''containers'', JArr [JObj [(''name'', JStr ''web'')],
                                                JObj [(''name'', JStr ''db'')]])]]),
            (''relationships'', JArr [])])"
  by (simp add: sortDiagram_in_place_def store_defs eval_defs)

end
